theory Spec2Isabelle
  imports Main "HOL-Library.Word"
begin

unbundle bit_operations_syntax

section \<open>Machine values of the Go source\<close>

text \<open>
  The source is \<^verbatim>\<open>parsesign.go\<close>. A Go \<^verbatim>\<open>byte\<close> is an 8-bit word. A Go
  \<^verbatim>\<open>int\<close> is a signed 64-bit integer on the platforms the tool is built for; it is
  modelled as an \<open>int\<close> that is wrapped into the signed 64-bit range after every
  addition, multiplication and left shift whose result can leave that range, which is
  what the Go language prescribes for signed overflow. The sum of an offset inside the
  slice and a header length (at most 129) cannot leave the range and is written without
  the wrap. A \<^verbatim>\<open>uint64\<close> is a 64-bit word.
\<close>

type_synonym byte = "8 word"

definition wrap64 :: "int \<Rightarrow> int" where
  "wrap64 x = signed_take_bit 63 x"

definition len :: "'a list \<Rightarrow> int" where
  "len xs = int (length xs)"

text \<open>
  A Go program returns, or it panics. A slice expression \<^verbatim>\<open>s[a:b]\<close> panics when
  \<open>0 \<le> a \<le> b\<close> fails. Go lets \<open>b\<close> run up to the capacity of \<open>s\<close>; at every slice
  expression of the functions below the guards in front of it leave only two cases,
  \<open>b \<le> len s\<close> or \<open>b < a\<close>, so the capacity never decides and the bound used here is
  the length.
\<close>

datatype 'a run = Panic | Done 'a

definition sliceFrom :: "byte list \<Rightarrow> int \<Rightarrow> byte list run" where
  "sliceFrom s a = (if 0 \<le> a \<and> a \<le> len s then Done (drop (nat a) s) else Panic)"

definition slice :: "byte list \<Rightarrow> int \<Rightarrow> int \<Rightarrow> byte list run" where
  "slice s a b =
     (if 0 \<le> a \<and> a \<le> b \<and> b \<le> len s then Done (take (nat (b - a)) (drop (nat a) s))
      else Panic)"

text \<open>\<^verbatim>\<open>string(bytes)\<close>: a Go string holds the same bytes.\<close>

definition string_of_bytes :: "byte list \<Rightarrow> string" where
  "string_of_bytes bs = map (\<lambda>b. char_of (unat b)) bs"

text \<open>\<^verbatim>\<open>fmt.Sprintf("%d", v)\<close> for an unsigned value, and \<^verbatim>\<open>strings.Join(xs, ".")\<close>.\<close>

definition digit :: "nat \<Rightarrow> char" where
  "digit d = ''0123456789'' ! d"

function decimal :: "nat \<Rightarrow> string" where
  "decimal n = (if n < 10 then [digit n] else decimal (n div 10) @ [digit (n mod 10)])"
  by pat_completeness auto
termination
  by (relation "measure id") auto

fun joinDot :: "string list \<Rightarrow> string" where
  "joinDot [] = []"
| "joinDot [x] = x"
| "joinDot (x # y # ys) = x @ ''.'' @ joinDot (y # ys)"

section \<open>Constants and data of the source\<close>

definition TagOctetString :: int where "TagOctetString = 4"
definition TagObjectID :: int where "TagObjectID = 6"

definition OIDCommonName :: string where "OIDCommonName = ''2.5.4.3''"
definition OIDCountryName :: string where "OIDCountryName = ''2.5.4.6''"
definition OIDLocalityName :: string where "OIDLocalityName = ''2.5.4.7''"
definition OIDOrganizationName :: string where "OIDOrganizationName = ''2.5.4.10''"
definition OIDEmailAddress :: string where "OIDEmailAddress = ''1.2.840.113549.1.9.1''"

record SignatureValidation =
  HasCommonName :: bool
  HasCountryName :: bool
  HasLocalityName :: bool
  HasOrganizationName :: bool
  HasEmailAddress :: bool
  CommonName :: string
  CountryName :: string
  LocalityName :: string
  OrganizationName :: string
  EmailAddress :: string

definition IsValid :: "SignatureValidation \<Rightarrow> bool" where
  "IsValid sv \<longleftrightarrow> HasCommonName sv \<and> HasCountryName sv \<and> HasLocalityName sv \<and>
     HasOrganizationName sv \<and> HasEmailAddress sv"

text \<open>
  \<^verbatim>\<open>ASN1Element\<close>. The fields \<^verbatim>\<open>TagName\<close> and \<^verbatim>\<open>Content\<close> hold display text
  (\<^verbatim>\<open>getTagName\<close>, \<^verbatim>\<open>formatPrimitiveContent\<close>); no function of the search, the field
  extraction or the key size reads them, and they are left out of the record. The slice
  expression that \<^verbatim>\<open>parseASN1Element\<close> evaluates to compute \<^verbatim>\<open>Content\<close> is kept,
  because it can panic.
\<close>

record ASN1Element =
  Depth :: int
  Offset :: int
  HeaderLen :: int
  Length :: int
  Tag :: int
  Class :: int
  IsCompound :: bool

text \<open>The zero value \<^verbatim>\<open>ASN1Element{}\<close> and \<^verbatim>\<open>SignatureValidation{}\<close>.\<close>

definition zeroElement :: ASN1Element where
  "zeroElement = \<lparr>Depth = 0, Offset = 0, HeaderLen = 0, Length = 0, Tag = 0, Class = 0,
     IsCompound = False\<rparr>"

definition zeroValidation :: SignatureValidation where
  "zeroValidation = \<lparr>HasCommonName = False, HasCountryName = False, HasLocalityName = False,
     HasOrganizationName = False, HasEmailAddress = False, CommonName = [], CountryName = [],
     LocalityName = [], OrganizationName = [], EmailAddress = []\<rparr>"

section \<open>parseOID\<close>

text \<open>
  The inner loop of \<^verbatim>\<open>parseOID\<close>: \<open>bs\<close> is \<^verbatim>\<open>content[i:]\<close>, the empty list is
  \<^verbatim>\<open>i >= len(content)\<close>. It returns the value and the bytes not yet consumed.
\<close>

fun oidChunk :: "64 word \<Rightarrow> byte list \<Rightarrow> 64 word \<times> byte list" where
  "oidChunk v [] = (v, [])"
| "oidChunk v (b # bs) =
     (let v' = push_bit 7 v OR ucast (b AND 0x7F)
      in if b AND 0x80 = 0 then (v', bs) else oidChunk v' bs)"

lemma oidChunk_length: "length (snd (oidChunk v bs)) \<le> length bs"
  by (induction bs arbitrary: v) (auto simp: Let_def le_SucI)

text \<open>The outer loop: one arc per chunk.\<close>

function oidArcs :: "byte list \<Rightarrow> string list" where
  "oidArcs [] = []"
| "oidArcs (b # bs) =
     decimal (unat (fst (oidChunk 0 (b # bs)))) # oidArcs (snd (oidChunk 0 (b # bs)))"
  by pat_completeness auto
termination
proof (relation "measure length")
  show "wf (measure length)" by simp
next
  fix b :: byte and bs
  have "length (snd (oidChunk 0 (b # bs))) < length (b # bs)"
    using oidChunk_length [of "push_bit 7 0 OR ucast (b AND 0x7F)" bs]
    by (auto simp: Let_def)
  then show "(snd (oidChunk 0 (b # bs)), b # bs) \<in> measure length" by simp
qed

definition parseOID :: "byte list \<Rightarrow> string" where
  "parseOID content =
     (case content of
        [] \<Rightarrow> []
      | first # rest \<Rightarrow>
          joinDot (decimal (unat (first div 40)) # decimal (unat (first mod 40)) # oidArcs rest))"

section \<open>parseASN1Element\<close>

datatype error =
    InsufficientData
  | IndefiniteLength
  | InsufficientLengthOctets
  | BeyondAvailableData
  | NoValidSignature

text \<open>
  The long-form loop \<^verbatim>\<open>element.Length = (element.Length << 8) | int(data[bytesRead])\<close>
  over the length octets.
\<close>

definition accumulateLength :: "byte list \<Rightarrow> int" where
  "accumulateLength octets = foldl (\<lambda>l b. wrap64 (push_bit 8 l) OR uint b) 0 octets"

text \<open>
  The end of \<^verbatim>\<open>parseASN1Element\<close>, common to the short and the long form: the content
  slice of a primitive element (taken for \<^verbatim>\<open>Content\<close>), and the bound check on
  \<^verbatim>\<open>totalBytes\<close>.
\<close>

definition elementContent :: "byte list \<Rightarrow> ASN1Element \<Rightarrow> (error + ASN1Element \<times> int) run" where
  "elementContent data element =
     (let totalBytes = wrap64 (HeaderLen element + Length element)
      in case (if \<not> IsCompound element \<and> Length element > 0 \<and> len data \<ge> totalBytes
               then slice data (HeaderLen element) totalBytes else Done [])
         of Panic \<Rightarrow> Panic
          | Done content \<Rightarrow>
              if totalBytes > len data then Done (Inl BeyondAvailableData)
              else Done (Inr (element, totalBytes)))"

definition parseASN1Element ::
  "byte list \<Rightarrow> int \<Rightarrow> int \<Rightarrow> (error + ASN1Element \<times> int) run" where
  "parseASN1Element data depth offset =
     (if len data < 2 then Done (Inl InsufficientData)
      else
        let tagByte = data ! 0;
            element = \<lparr>Depth = depth, Offset = offset, HeaderLen = 0, Length = 0,
              Tag = uint (tagByte AND 0x1F), Class = uint (drop_bit 6 (tagByte AND 0xC0)),
              IsCompound = (tagByte AND 0x20 \<noteq> 0)\<rparr>;
            lengthByte = data ! 1
        in if lengthByte AND 0x80 = 0
           then elementContent data (element\<lparr>Length := uint lengthByte, HeaderLen := 2\<rparr>)
           else
             let lengthOctets = uint (lengthByte AND 0x7F)
             in if lengthOctets = 0 then Done (Inl IndefiniteLength)
                else if len data < 2 + lengthOctets then Done (Inl InsufficientLengthOctets)
                else elementContent data
                  (element\<lparr>Length := accumulateLength (take (nat lengthOctets) (drop 2 data)),
                     HeaderLen := 2 + lengthOctets\<rparr>))"

section \<open>Field extraction\<close>

definition setValidationField :: "SignatureValidation \<Rightarrow> string \<Rightarrow> string \<Rightarrow> SignatureValidation" where
  "setValidationField validation oid v =
     (if oid = OIDCommonName then validation\<lparr>HasCommonName := True, CommonName := v\<rparr>
      else if oid = OIDCountryName then validation\<lparr>HasCountryName := True, CountryName := v\<rparr>
      else if oid = OIDLocalityName then validation\<lparr>HasLocalityName := True, LocalityName := v\<rparr>
      else if oid = OIDOrganizationName
      then validation\<lparr>HasOrganizationName := True, OrganizationName := v\<rparr>
      else if oid = OIDEmailAddress then validation\<lparr>HasEmailAddress := True, EmailAddress := v\<rparr>
      else validation)"

text \<open>
  The body of \<^verbatim>\<open>if element.Tag == TagObjectID && element.Length > 0\<close> in
  \<^verbatim>\<open>findFieldsInASN1\<close>: decode the OID, look at the element that follows, record its
  bytes. Sums with \<^verbatim>\<open>element.Length\<close> or \<^verbatim>\<open>bytesRead\<close> can overflow and are wrapped;
  an offset below the slice length plus a header length (at most 129) is not.
\<close>

definition checkOID ::
  "byte list \<Rightarrow> int \<Rightarrow> ASN1Element \<Rightarrow> int \<Rightarrow> SignatureValidation \<Rightarrow> SignatureValidation run" where
  "checkOID data offset element bytesRead validation =
     (if Tag element = TagObjectID \<and> Length element > 0 then
        case slice data (offset + HeaderLen element)
               (wrap64 (offset + HeaderLen element + Length element)) of
          Panic \<Rightarrow> Panic
        | Done content \<Rightarrow>
            let oid = parseOID content;
                valueOffset = wrap64 (offset + bytesRead)
            in if valueOffset < len data then
                 case sliceFrom data valueOffset of
                   Panic \<Rightarrow> Panic
                 | Done window \<Rightarrow>
                     (case parseASN1Element window 0 valueOffset of
                        Panic \<Rightarrow> Panic
                      | Done (Inl err) \<Rightarrow> Done validation
                      | Done (Inr (valueElement, n)) \<Rightarrow>
                          if \<not> IsCompound valueElement \<and> Length valueElement > 0 then
                            case slice data (valueOffset + HeaderLen valueElement)
                                   (wrap64 (valueOffset + HeaderLen valueElement
                                      + Length valueElement)) of
                              Panic \<Rightarrow> Panic
                            | Done valueBytes \<Rightarrow>
                                Done (setValidationField validation oid
                                  (string_of_bytes valueBytes))
                          else Done validation)
               else Done validation
      else Done validation)"

text \<open>
  The condition under which the walk descends into a constructed element, and the slice
  it descends into. \<open>window\<close> is \<^verbatim>\<open>data[offset:]\<close>.
\<close>

definition descends :: "byte list \<Rightarrow> ASN1Element \<Rightarrow> int \<Rightarrow> bool" where
  "descends window element bytesRead \<longleftrightarrow>
     IsCompound element \<and> Length element > 0 \<and> HeaderLen element < bytesRead \<and>
     Length element \<le> len window - HeaderLen element"

definition contentOf :: "byte list \<Rightarrow> int \<Rightarrow> ASN1Element \<Rightarrow> byte list run" where
  "contentOf data offset element =
     slice data (offset + HeaderLen element) (wrap64 (offset + HeaderLen element + Length element))"

text \<open>
  The loop of \<^verbatim>\<open>findFieldsInASN1\<close>, from \<open>offset\<close> on. The loop need not end
  (\<^verbatim>\<open>offset += bytesRead\<close> with \<open>bytesRead \<le> 0\<close>): \<open>None\<close> is a run that never returns.
\<close>

partial_function (option) findFieldsLoop ::
  "byte list \<Rightarrow> int \<Rightarrow> SignatureValidation \<Rightarrow> SignatureValidation run option" where
  "findFieldsLoop data offset validation =
     (if offset < len data then
        case sliceFrom data offset of
          Panic \<Rightarrow> Some Panic
        | Done window \<Rightarrow>
            (case parseASN1Element window 0 offset of
               Panic \<Rightarrow> Some Panic
             | Done (Inl err) \<Rightarrow> Some (Done validation)
             | Done (Inr (element, bytesRead)) \<Rightarrow>
                 (case checkOID data offset element bytesRead validation of
                    Panic \<Rightarrow> Some Panic
                  | Done validation1 \<Rightarrow>
                      Option.bind
                        (if descends window element bytesRead then
                           case contentOf data offset element of
                             Panic \<Rightarrow> Some Panic
                           | Done content \<Rightarrow> findFieldsLoop content 0 validation1
                         else Some (Done validation1))
                        (\<lambda>r. case r of
                           Panic \<Rightarrow> Some Panic
                         | Done validation2 \<Rightarrow>
                             findFieldsLoop data (wrap64 (offset + bytesRead)) validation2)))
      else Some (Done validation))"

declare findFieldsLoop.simps [code]

definition findFieldsInASN1 ::
  "byte list \<Rightarrow> SignatureValidation \<Rightarrow> SignatureValidation run option" where
  "findFieldsInASN1 data validation = findFieldsLoop data 0 validation"

definition validateSignatureFields :: "byte list \<Rightarrow> SignatureValidation run option" where
  "validateSignatureFields data = findFieldsInASN1 data zeroValidation"

section \<open>Key size\<close>

text \<open>The test after the loop of \<^verbatim>\<open>findLastOctetString\<close>.\<close>

definition lastIsOctetString :: "ASN1Element \<Rightarrow> int \<Rightarrow> int" where
  "lastIsOctetString lastElement keySize =
     (if Tag lastElement = TagOctetString then wrap64 (Length lastElement * 8) else keySize)"

partial_function (option) findLastLoop ::
  "byte list \<Rightarrow> int \<Rightarrow> ASN1Element \<Rightarrow> int \<Rightarrow> int \<Rightarrow> int run option" where
  "findLastLoop data offset lastElement keySize depth =
     (if offset < len data then
        case sliceFrom data offset of
          Panic \<Rightarrow> Some Panic
        | Done window \<Rightarrow>
            (case parseASN1Element window depth offset of
               Panic \<Rightarrow> Some Panic
             | Done (Inl err) \<Rightarrow> Some (Done (lastIsOctetString lastElement keySize))
             | Done (Inr (element, bytesRead)) \<Rightarrow>
                 Option.bind
                   (if descends window element bytesRead then
                      case contentOf data offset element of
                        Panic \<Rightarrow> Some Panic
                      | Done content \<Rightarrow>
                          findLastLoop content 0 zeroElement keySize (wrap64 (depth + 1))
                    else Some (Done keySize))
                   (\<lambda>r. case r of
                      Panic \<Rightarrow> Some Panic
                    | Done keySize1 \<Rightarrow>
                        findLastLoop data (wrap64 (offset + bytesRead)) element keySize1 depth))
      else Some (Done (lastIsOctetString lastElement keySize)))"

declare findLastLoop.simps [code]

definition findLastOctetString :: "byte list \<Rightarrow> int \<Rightarrow> int \<Rightarrow> int run option" where
  "findLastOctetString data keySize depth = findLastLoop data 0 zeroElement keySize depth"

definition calculateKeySize :: "byte list \<Rightarrow> int run option" where
  "calculateKeySize data = findLastOctetString data 0 0"

section \<open>Signature search\<close>

text \<open>
  \<^verbatim>\<open>asn1.RawValue\<close> and \<^verbatim>\<open>asn1.Unmarshal\<close> belong to Go's standard library, not to the
  repository. The search takes the decoder as a parameter \<open>unmarshal\<close>: \<open>None\<close> is an
  error, \<open>Some (raw, rest)\<close> the decoded value and the bytes after it. The source drops
  the rest (\<^verbatim>\<open>_, err := asn1.Unmarshal(buffer, &raw)\<close>).
\<close>

record RawValue =
  RawClass :: int
  RawTag :: int
  RawIsCompound :: bool
  Bytes :: "byte list"
  FullBytes :: "byte list"

function findValidLoop ::
  "(byte list \<Rightarrow> (RawValue \<times> byte list) option) \<Rightarrow> byte list \<Rightarrow> int \<Rightarrow>
     (error + RawValue \<times> int) run option" where
  "findValidLoop unmarshal data i =
     (if i \<ge> 0 then
        if data ! nat i = 0x30 \<and> data ! nat (i + 1) = 0x82 then
          case sliceFrom data i of
            Panic \<Rightarrow> Some Panic
          | Done buffer \<Rightarrow>
              (case unmarshal buffer of
                 None \<Rightarrow> findValidLoop unmarshal data (i - 1)
               | Some (raw, rest) \<Rightarrow>
                   Option.bind (validateSignatureFields (FullBytes raw))
                     (\<lambda>r. case r of
                        Panic \<Rightarrow> Some Panic
                      | Done validation \<Rightarrow>
                          if \<not> IsValid validation then findValidLoop unmarshal data (i - 1)
                          else Some (Done (Inr (raw, i)))))
        else findValidLoop unmarshal data (i - 1)
      else Some (Done (Inl NoValidSignature)))"
  by pat_completeness auto
termination
  by (relation "measure (\<lambda>(unmarshal, data, i). nat (i + 1))") auto

declare findValidLoop.simps [simp del]

definition FindValidSignature ::
  "(byte list \<Rightarrow> (RawValue \<times> byte list) option) \<Rightarrow> byte list \<Rightarrow>
     (error + RawValue \<times> int) run option" where
  "FindValidSignature unmarshal data = findValidLoop unmarshal data (len data - 2)"

section \<open>Encoded structures\<close>

text \<open>
  The claims about the walk speak of elements, siblings and document order. They are
  stated over the byte strings that encode a sequence of elements: an element is
  primitive, with an identifier octet and content bytes, or constructed, with an
  identifier octet and a sequence of elements. Each carries the form of its length: 0
  for the short form, or the number \<open>k\<close> of length octets of the long form, which hold
  the length big-endian (not necessarily in the fewest octets).
\<close>

datatype tlv = Primitive byte nat "byte list" | Constructed byte nat "tlv list"

primrec bigEndian :: "nat \<Rightarrow> nat \<Rightarrow> byte list" where
  "bigEndian 0 n = []"
| "bigEndian (Suc k) n = bigEndian k (n div 256) @ [of_nat (n mod 256)]"

definition encodeLength :: "nat \<Rightarrow> nat \<Rightarrow> byte list" where
  "encodeLength k n = (if k = 0 then [of_nat n] else (0x80 OR of_nat k) # bigEndian k n)"

primrec encode :: "tlv \<Rightarrow> byte list" where
  "encode (Primitive b k c) = b # encodeLength k (length c) @ c"
| "encode (Constructed b k ts) =
     b # encodeLength k (length (concat (map encode ts))) @ concat (map encode ts)"

definition encodeAll :: "tlv list \<Rightarrow> byte list" where
  "encodeAll ts = concat (map encode ts)"

primrec identOctet :: "tlv \<Rightarrow> byte" where
  "identOctet (Primitive b k c) = b"
| "identOctet (Constructed b k ts) = b"

primrec lengthForm :: "tlv \<Rightarrow> nat" where
  "lengthForm (Primitive b k c) = k"
| "lengthForm (Constructed b k ts) = k"

primrec body :: "tlv \<Rightarrow> byte list" where
  "body (Primitive b k c) = c"
| "body (Constructed b k ts) = encodeAll ts"

text \<open>
  Well-formed: bit \<open>0x20\<close> of the identifier octet says whether the element is
  constructed, and the length fits its form: below 128 in the short form, and in at most
  seven length octets in the long form.
\<close>

definition fits :: "nat \<Rightarrow> nat \<Rightarrow> bool" where
  "fits k n \<longleftrightarrow> (if k = 0 then n < 128 else k \<le> 7 \<and> n < 256 ^ k)"

fun wellFormed :: "tlv \<Rightarrow> bool" where
  "wellFormed (Primitive b k c) \<longleftrightarrow> b AND 0x20 = 0 \<and> fits k (length c)"
| "wellFormed (Constructed b k ts) \<longleftrightarrow>
     b AND 0x20 \<noteq> 0 \<and> (\<forall>t \<in> set ts. wellFormed t) \<and> fits k (length (encodeAll ts))"

definition tagNumber :: "tlv \<Rightarrow> int" where
  "tagNumber t = uint (identOctet t AND 0x1F)"

definition headerLen :: "tlv \<Rightarrow> int" where
  "headerLen t = 2 + int (lengthForm t)"

text \<open>The \<^verbatim>\<open>ASN1Element\<close> that describes an encoded element.\<close>

definition elementOf :: "tlv \<Rightarrow> int \<Rightarrow> int \<Rightarrow> ASN1Element" where
  "elementOf t depth offset =
     \<lparr>Depth = depth, Offset = offset, HeaderLen = headerLen t, Length = len (body t),
      Tag = tagNumber t, Class = uint (drop_bit 6 (identOctet t AND 0xC0)),
      IsCompound = (identOctet t AND 0x20 \<noteq> 0)\<rparr>"

text \<open>
  The pairs that the field walk records, in the order in which it records them. The walk
  tests the tag number alone (\<^verbatim>\<open>element.Tag == TagObjectID\<close>): an element of any
  class, primitive or constructed, with tag number 6 and a non-empty content, followed by
  a primitive non-empty sibling, gives one pair, its content decoded by \<^verbatim>\<open>parseOID\<close>
  and the bytes of that sibling.
\<close>

fun recordedAfter :: "tlv \<Rightarrow> tlv list \<Rightarrow> (string \<times> string) list" where
  "recordedAfter t [] = []"
| "recordedAfter t (Primitive b k c # ts) =
     (if tagNumber t = 6 \<and> body t \<noteq> [] \<and> c \<noteq> []
      then [(parseOID (body t), string_of_bytes c)] else [])"
| "recordedAfter t (Constructed b k cs # ts) = []"

fun recordedPairs :: "tlv list \<Rightarrow> (string \<times> string) list" where
  "recordedPairs [] = []"
| "recordedPairs (Primitive b k c # ts) = recordedAfter (Primitive b k c) ts @ recordedPairs ts"
| "recordedPairs (Constructed b k cs # ts) =
     recordedAfter (Constructed b k cs) ts @ recordedPairs cs @ recordedPairs ts"

text \<open>Recording the pairs in order, later ones over earlier ones.\<close>

definition recordAll :: "SignatureValidation \<Rightarrow> (string \<times> string) list \<Rightarrow> SignatureValidation" where
  "recordAll v ps = foldl (\<lambda>v p. setValidationField v (fst p) (snd p)) v ps"

primrec isConstructed :: "tlv \<Rightarrow> bool" where
  "isConstructed (Primitive b k c) = False"
| "isConstructed (Constructed b k cs) = True"

text \<open>
  The regions of siblings that the key-size walk goes through, in the order in which it
  finishes them: the non-empty content of every constructed element, inner regions before
  the region that holds the element, and the top-level range last.
\<close>

fun below :: "tlv list \<Rightarrow> tlv list list" where
  "below [] = []"
| "below (Primitive b k c # ts) = below ts"
| "below (Constructed b k cs # ts) = (if cs = [] then [] else below cs @ [cs]) @ below ts"

definition regions :: "tlv list \<Rightarrow> tlv list list" where
  "regions ts = below ts @ [ts]"

definition endsInTag4 :: "tlv list \<Rightarrow> bool" where
  "endsInTag4 r \<longleftrightarrow> r \<noteq> [] \<and> tagNumber (last r) = 4"

text \<open>
  The key size as the walk computes it, with its test on the tag number alone
  (\<^verbatim>\<open>lastElement.Tag == TagOctetString\<close>): the last finished region whose last element
  has tag number 4 gives eight times the content length of that element; no such region
  gives 0.
\<close>

definition keyOfRegions :: "tlv list list \<Rightarrow> int" where
  "keyOfRegions rs =
     (case filter endsInTag4 rs of
        [] \<Rightarrow> 0
      | r # rest \<Rightarrow> 8 * len (body (last (last (r # rest)))))"

definition keyUpdate :: "int \<Rightarrow> tlv list \<Rightarrow> int" where
  "keyUpdate k r = (if endsInTag4 r then 8 * len (body (last r)) else k)"

text \<open>The key after a region: the last element of the region decides, else the key so far.\<close>

definition afterRegion :: "ASN1Element \<Rightarrow> tlv list \<Rightarrow> int \<Rightarrow> int" where
  "afterRegion lastE ts k = (if ts = [] then lastIsOctetString lastE k else keyUpdate k ts)"

text \<open>
  The five recognized attribute identifiers, and the pair of fields a
  \<^verbatim>\<open>SignatureValidation\<close> holds for one of them.
\<close>

definition recognized :: "string list" where
  "recognized = [OIDCommonName, OIDCountryName, OIDLocalityName, OIDOrganizationName, OIDEmailAddress]"

definition recorded :: "string \<Rightarrow> SignatureValidation \<Rightarrow> bool \<times> string" where
  "recorded oid v =
     (if oid = OIDCommonName then (HasCommonName v, CommonName v)
      else if oid = OIDCountryName then (HasCountryName v, CountryName v)
      else if oid = OIDLocalityName then (HasLocalityName v, LocalityName v)
      else if oid = OIDOrganizationName then (HasOrganizationName v, OrganizationName v)
      else if oid = OIDEmailAddress then (HasEmailAddress v, EmailAddress v)
      else (False, []))"

text \<open>
  What the search does with one candidate offset: the bytes are not the marker, the
  decoder fails or the attributes are incomplete (rejected); all five attributes are
  present (accepted); the field extraction panics (crashed). \<open>None\<close> is a field
  extraction that does not return.
\<close>

datatype verdict = Rejected | Accepted RawValue | Crashed

definition marker :: "byte list \<Rightarrow> int \<Rightarrow> bool" where
  "marker data i \<longleftrightarrow> data ! nat i = 0x30 \<and> data ! nat (i + 1) = 0x82"

definition candidate ::
  "(byte list \<Rightarrow> (RawValue \<times> byte list) option) \<Rightarrow> byte list \<Rightarrow> int \<Rightarrow> verdict option" where
  "candidate unmarshal data i =
     (if marker data i then
        case unmarshal (drop (nat i) data) of
          None \<Rightarrow> Some Rejected
        | Some (raw, rest) \<Rightarrow>
            (case validateSignatureFields (FullBytes raw) of
               None \<Rightarrow> None
             | Some Panic \<Rightarrow> Some Crashed
             | Some (Done validation) \<Rightarrow>
                 if IsValid validation then Some (Accepted raw) else Some Rejected)
      else Some Rejected)"

section \<open>Inputs and limits named by the claims\<close>

text \<open>
  A header with identifier octet \<open>b\<close> and eight length octets
  \<open>FF FF FF FF FF FF FF F6\<close>: accumulated in a signed 64-bit \<^verbatim>\<open>int\<close> they give the
  length \<open>-10\<close>.
\<close>

definition wrapHeader :: "byte \<Rightarrow> byte list" where
  "wrapHeader b = [b, 0x88, 0xFF, 0xFF, 0xFF, 0xFF, 0xFF, 0xFF, 0xFF, 0xF6]"

text \<open>
  Modelled from the spec: \<^verbatim>\<open>asn1.Unmarshal\<close> is Go's standard library and is missing
  from the repository. Section 4.6 of the specification describes the step as a full TLV
  decode of \<^verbatim>\<open>buffer[i:]\<close>, and section 3 the result as the exact byte range of header
  and content. This decoder does that with \<^verbatim>\<open>parseASN1Element\<close>; it stands for the
  parameter \<open>unmarshal\<close> on concrete buffers only. The buffers used below start with
  \<open>30 82 01 00\<close> and hold the 256 content bytes, which the library decodes to the same
  value.
\<close>

definition unmarshalTLV :: "byte list \<Rightarrow> (RawValue \<times> byte list) option" where
  "unmarshalTLV buffer =
     (case parseASN1Element buffer 0 0 of
        Done (Inr (element, n)) \<Rightarrow>
          Some (\<lparr>RawClass = Class element, RawTag = Tag element,
                  RawIsCompound = IsCompound element,
                  Bytes = take (nat (Length element)) (drop (nat (HeaderLen element)) buffer),
                  FullBytes = take (nat n) buffer\<rparr>,
                drop (nat n) buffer)
      | _ \<Rightarrow> None)"

text \<open>The value decoded from the encoding of an element.\<close>

definition rawOf :: "tlv \<Rightarrow> RawValue" where
  "rawOf t = \<lparr>RawClass = uint (drop_bit 6 (identOctet t AND 0xC0)), RawTag = tagNumber t,
     RawIsCompound = (identOctet t AND 0x20 \<noteq> 0), Bytes = body t, FullBytes = encode t\<rparr>"

text \<open>
  A structure of 260 bytes with the five attributes: a SEQUENCE of five pairs of an
  OBJECT IDENTIFIER and a UTF8String, and an OCTET STRING of 207 zero bytes that brings
  the content to 256 bytes. No byte after the first is \<open>0x30\<close>.
\<close>

definition signatureTree :: tlv where
  "signatureTree = Constructed 0x30 2
     [Primitive 0x06 0 [0x55, 0x04, 0x03], Primitive 0x0C 0 [0x41],
      Primitive 0x06 0 [0x55, 0x04, 0x06], Primitive 0x0C 0 [0x42],
      Primitive 0x06 0 [0x55, 0x04, 0x07], Primitive 0x0C 0 [0x43],
      Primitive 0x06 0 [0x55, 0x04, 0x0A], Primitive 0x0C 0 [0x44],
      Primitive 0x06 0 [0x2A, 0x86, 0x48, 0x86, 0xF7, 0x0D, 0x01, 0x09, 0x01], Primitive 0x0C 0 [0x45],
      Primitive 0x04 1 (replicate 207 0)]"

definition signatureBytes :: "byte list" where
  "signatureBytes =
     [0x30, 0x82, 0x01, 0x00,
      0x06, 0x03, 0x55, 0x04, 0x03, 0x0C, 0x01, 0x41,
      0x06, 0x03, 0x55, 0x04, 0x06, 0x0C, 0x01, 0x42,
      0x06, 0x03, 0x55, 0x04, 0x07, 0x0C, 0x01, 0x43,
      0x06, 0x03, 0x55, 0x04, 0x0A, 0x0C, 0x01, 0x44,
      0x06, 0x09, 0x2A, 0x86, 0x48, 0x86, 0xF7, 0x0D, 0x01, 0x09, 0x01, 0x0C, 0x01, 0x45,
      0x04, 0x81, 0xCF] @ replicate 207 0"

definition signatureFields :: SignatureValidation where
  "signatureFields = \<lparr>HasCommonName = True, HasCountryName = True, HasLocalityName = True,
     HasOrganizationName = True, HasEmailAddress = True, CommonName = ''A'', CountryName = ''B'',
     LocalityName = ''C'', OrganizationName = ''D'', EmailAddress = ''E''\<rparr>"

text \<open>Two names in two relative distinguished names: the common name A, then B.\<close>

definition twoNames :: "tlv list" where
  "twoNames =
     [Constructed 0x30 0
        [Constructed 0x31 0
           [Constructed 0x30 0 [Primitive 0x06 0 [0x55, 0x04, 0x03], Primitive 0x0C 0 [0x41]]],
         Constructed 0x31 0
           [Constructed 0x30 0 [Primitive 0x06 0 [0x55, 0x04, 0x03], Primitive 0x0C 0 [0x42]]]]]"

text \<open>
  Modelled from the spec: the limits \<^verbatim>\<open>MaxRecursionDepth\<close> and
  \<^verbatim>\<open>MaxElementsPerLevel\<close> are named by the specification (section 4.2), by the tests
  and by \<^verbatim>\<open>TESTING.md\<close>; \<^verbatim>\<open>parsesign.go\<close> does not declare them.
\<close>

definition MaxRecursionDepth :: int where
  "MaxRecursionDepth = 50"

definition MaxElementsPerLevel :: int where
  "MaxElementsPerLevel = 10000"

text \<open>An element wrapped in \<open>n\<close> SEQUENCEs.\<close>

fun nested :: "nat \<Rightarrow> tlv \<Rightarrow> tlv" where
  "nested 0 t = t"
| "nested (Suc n) t = Constructed 0x30 0 [nested n t]"

text \<open>
  A buffer of 260 bytes: the marker and the length 256, then a SET header whose length
  wraps to \<open>-10\<close>, then zero bytes. No byte after the first is \<open>0x30\<close>.
\<close>

definition stuckSignature :: "byte list" where
  "stuckSignature = [0x30, 0x82, 0x01, 0x00] @ wrapHeader 0x31 @ replicate 246 0"

section \<open>The structures and the values the specification describes\<close>

text \<open>
  Modelled from the spec: the elements of a structure in depth-first document order, an
  element before the elements of its content.
\<close>

fun visited :: "tlv list \<Rightarrow> tlv list" where
  "visited [] = []"
| "visited (Primitive b k c # ts) = Primitive b k c # visited ts"
| "visited (Constructed b k cs # ts) = Constructed b k cs # visited cs @ visited ts"

text \<open>
  Modelled from the spec: the number of levels of a structure; the elements of the
  top-level range are at depth 0, and a structure of \<open>n\<close> levels has its deepest
  elements at depth \<open>n - 1\<close>.
\<close>

fun levels :: "tlv list \<Rightarrow> nat" where
  "levels [] = 0"
| "levels (Primitive b k c # ts) = max 1 (levels ts)"
| "levels (Constructed b k cs # ts) = max (1 + levels cs) (levels ts)"

text \<open>
  Modelled from the spec: the structures that sections 4.1 and 4.2 of the specification
  ask the walk to go through without a failure: no more than \<^verbatim>\<open>MaxRecursionDepth\<close>
  levels, so that every element is at a depth below the limit, no more than
  \<^verbatim>\<open>MaxElementsPerLevel\<close> elements in a region of siblings, and no identifier octet
  with the low five bits all set, which opens a long-form tag.
\<close>

definition withinLimits :: "tlv list \<Rightarrow> bool" where
  "withinLimits ts \<longleftrightarrow>
     int (levels ts) \<le> MaxRecursionDepth
     \<and> (\<forall>r \<in> set (regions ts). len r \<le> MaxElementsPerLevel)
     \<and> (\<forall>t \<in> set (visited ts). tagNumber t \<noteq> 31)"

text \<open>
  Modelled from the spec: a structure in which tag number \<open>n\<close> is borne by the primitive
  element of the universal class only, whose identifier octet is \<open>n\<close> itself (\<open>04\<close> for
  the OCTET STRING, \<open>06\<close> for the OBJECT IDENTIFIER); no element of another class and no
  constructed element has that tag number.
\<close>

definition onlyUniversal :: "byte \<Rightarrow> tlv list \<Rightarrow> bool" where
  "onlyUniversal n ts \<longleftrightarrow> (\<forall>t \<in> set (visited ts). tagNumber t = uint n \<longrightarrow> identOctet t = n)"

text \<open>
  Modelled from the spec: the key size in the words of the claim C4, eight times the
  content length of the last element visited when that one is an OCTET STRING (universal
  class, primitive, tag number 4), else 0.
\<close>

definition isOctetString :: "tlv \<Rightarrow> bool" where
  "isOctetString t \<longleftrightarrow> identOctet t = 0x04"

definition claimedKeySize :: "tlv list \<Rightarrow> int" where
  "claimedKeySize ts =
     (case visited ts of
        [] \<Rightarrow> 0
      | v # vs \<Rightarrow> if isOctetString (last (v # vs)) then 8 * len (body (last (v # vs))) else 0)"

text \<open>
  The key size by regions: among the regions of siblings that end in an OCTET STRING,
  the one finished last gives eight times the content length of that OCTET STRING; when
  no region ends in an OCTET STRING the key size is 0.
\<close>

definition endsInOctetString :: "tlv list \<Rightarrow> bool" where
  "endsInOctetString r \<longleftrightarrow> r \<noteq> [] \<and> isOctetString (last r)"

definition regionKeySize :: "tlv list \<Rightarrow> int" where
  "regionKeySize ts =
     (case filter endsInOctetString (regions ts) of
        [] \<Rightarrow> 0
      | r # rest \<Rightarrow> 8 * len (body (last (last (r # rest)))))"

text \<open>A SEQUENCE that holds a SEQUENCE with an OCTET STRING, then an INTEGER.\<close>

definition keyExample :: "tlv list" where
  "keyExample =
     [Constructed 0x30 0 [Constructed 0x30 0 [Primitive 0x04 0 [0xAA]], Primitive 0x02 0 [0x01]]]"

text \<open>A SEQUENCE that holds an INTEGER, then a SEQUENCE with an OCTET STRING of two bytes.\<close>

definition keyLast :: "tlv list" where
  "keyLast =
     [Constructed 0x30 0
        [Primitive 0x02 0 [0x01], Constructed 0x30 0 [Primitive 0x04 0 [0xAA, 0xBB]]]]"

text \<open>
  Modelled from the spec: the occurrences of attribute identifiers in the words of the
  claim C9, in depth-first document order: an OBJECT IDENTIFIER (universal class,
  primitive, identifier octet \<open>06\<close>) with content, followed by a primitive non-empty
  sibling, gives one pair, the identifier in dotted-decimal form and the bytes of that
  sibling.
\<close>

fun following :: "tlv \<Rightarrow> tlv list \<Rightarrow> (string \<times> string) list" where
  "following t [] = []"
| "following t (Primitive b k c # ts) =
     (if identOctet t = 0x06 \<and> body t \<noteq> [] \<and> c \<noteq> []
      then [(parseOID (body t), string_of_bytes c)] else [])"
| "following t (Constructed b k cs # ts) = []"

fun occurrences :: "tlv list \<Rightarrow> (string \<times> string) list" where
  "occurrences [] = []"
| "occurrences (Primitive b k c # ts) = following (Primitive b k c) ts @ occurrences ts"
| "occurrences (Constructed b k cs # ts) =
     following (Constructed b k cs) ts @ occurrences cs @ occurrences ts"

text \<open>
  The common name in two OBJECT IDENTIFIERs, with the values A and B, then in an element
  of the context-specific class with tag number 6 (\<open>86\<close>, the
  \<^verbatim>\<open>uniformResourceIdentifier\<close> of a \<^verbatim>\<open>GeneralName\<close> in
  \<^verbatim>\<open>ASN1_TAG_REFERENCE.md\<close>), with the value C.
\<close>

definition threeNames :: "tlv list" where
  "threeNames =
     [Primitive 0x06 0 [0x55, 0x04, 0x03], Primitive 0x0C 0 [0x41],
      Primitive 0x06 0 [0x55, 0x04, 0x03], Primitive 0x0C 0 [0x42],
      Primitive 0x86 0 [0x55, 0x04, 0x03], Primitive 0x0C 0 [0x43]]"

section \<open>Properties of the decoder\<close>

lemmas findFieldsLoop_induct =
  findFieldsLoop.raw_induct [rotated 1, consumes 1, case_names step]

lemmas findLastLoop_induct =
  findLastLoop.raw_induct [rotated 1, consumes 1, case_names step]

subsection \<open>A length that wraps to a negative value\<close>

lemma parse_wrapHeader:
  "parseASN1Element (wrapHeader b @ rest) depth offset =
     Done (Inr (\<lparr>Depth = depth, Offset = offset, HeaderLen = 10, Length = - 10,
       Tag = uint (b AND 0x1F), Class = uint (drop_bit 6 (b AND 0xC0)),
       IsCompound = (b AND 0x20 \<noteq> 0)\<rparr>, 0))"
  by (simp add: wrapHeader_def parseASN1Element_def elementContent_def len_def accumulateLength_def wrap64_def
      slice_def Let_def)

lemma wrapHeader_window:
  "0 < len (wrapHeader b @ rest)"
  "sliceFrom (wrapHeader b @ rest) 0 = Done (wrapHeader b @ rest)"
  by (simp_all add: len_def wrapHeader_def sliceFrom_def)

text \<open>
  The element is decoded with \<open>bytesRead = 0\<close>, so the loop comes back to the same
  offset: no run of the loop on such a region returns.
\<close>

lemma findFieldsLoop_stuck_aux:
  "findFieldsLoop d off v = Some y \<Longrightarrow> \<not> (\<exists>b rest. d = wrapHeader b @ rest \<and> off = 0)"
proof (induction rule: findFieldsLoop_induct)
  case (step f d off v y)
  show ?case
  proof
    assume "\<exists>b rest. d = wrapHeader b @ rest \<and> off = 0"
    then obtain b rest where d: "d = wrapHeader b @ rest" and off: "off = 0" by blast
    from step(2) have "f (wrapHeader b @ rest) 0 v = Some y"
      unfolding d off
      by (simp add: wrapHeader_window parse_wrapHeader checkOID_def TagObjectID_def
          descends_def wrap64_def)
    with step(1) show False by blast
  qed
qed

lemma findFieldsLoop_stuck: "findFieldsLoop (wrapHeader b @ rest) 0 v = None"
  using findFieldsLoop_stuck_aux [of "wrapHeader b @ rest" 0 v]
  by (cases "findFieldsLoop (wrapHeader b @ rest) 0 v") auto

lemma findLastLoop_stuck_aux:
  "findLastLoop d off e k depth = Some y \<Longrightarrow> \<not> (\<exists>b rest. d = wrapHeader b @ rest \<and> off = 0)"
proof (induction rule: findLastLoop_induct)
  case (step f d off e k depth y)
  show ?case
  proof
    assume "\<exists>b rest. d = wrapHeader b @ rest \<and> off = 0"
    then obtain b rest where d: "d = wrapHeader b @ rest" and off: "off = 0" by blast
    from step(2) have "f (wrapHeader b @ rest) 0 \<lparr>Depth = depth, Offset = 0, HeaderLen = 10,
        Length = - 10, Tag = uint (b AND 0x1F), Class = uint (drop_bit 6 (b AND 0xC0)),
        IsCompound = (b AND 0x20 \<noteq> 0)\<rparr> k depth = Some y"
      unfolding d off
      by (simp add: wrapHeader_window parse_wrapHeader descends_def wrap64_def)
    with step(1) show False by blast
  qed
qed

lemma findLastLoop_stuck: "findLastLoop (wrapHeader b @ rest) 0 e k depth = None"
  using findLastLoop_stuck_aux [of "wrapHeader b @ rest" 0 e k depth]
  by (cases "findLastLoop (wrapHeader b @ rest) 0 e k depth") auto

subsection \<open>Chunks of an object identifier\<close>




subsection \<open>Decoding an encoded structure\<close>

lemma encode_eq:
  "encode t = identOctet t # encodeLength (lengthForm t) (length (body t)) @ body t"
  by (cases t) (simp_all add: encodeAll_def)

lemma fits_bound: "fits k n \<Longrightarrow> n < 2 ^ 56"
proof -
  assume f: "fits k n"
  show ?thesis
  proof (cases "k = 0")
    case True
    with f show ?thesis by (simp add: fits_def)
  next
    case False
    with f have "n < 256 ^ k" "k \<le> 7" by (simp_all add: fits_def)
    moreover have "(256 :: nat) ^ k \<le> 256 ^ 7" using \<open>k \<le> 7\<close> by (intro power_increasing) auto
    ultimately show ?thesis by simp
  qed
qed

lemma content_bound: "wellFormed t \<Longrightarrow> length (body t) < 2 ^ 56"
  by (cases t) (auto dest: fits_bound)

lemma wellFormed_fits: "wellFormed t \<Longrightarrow> fits (lengthForm t) (length (body t))"
  by (cases t) auto

lemma byte_short:
  assumes "n < 128"
  shows "(of_nat n :: byte) AND 0x80 = 0" and "uint (of_nat n :: byte) = int n"
proof -
  have "\<not> bit n 7" using assms by (simp add: bit_iff_odd)
  then have "\<not> bit (of_nat n :: byte) 7" by (simp add: bit_of_nat_iff)
  then have "(of_nat n :: byte) AND 2 ^ 7 = 0"
    unfolding and_exp_eq_0_iff_not_bit .
  then show "(of_nat n :: byte) AND 0x80 = 0" by simp
  show "uint (of_nat n :: byte) = int n"
    using assms by (simp add: uint_nat unat_of_nat)
qed

lemma uint_byte_of_nat: "n < 256 \<Longrightarrow> uint (of_nat n :: byte) = int n"
  by (simp add: uint_nat unat_of_nat)

lemma long_form_byte:
  assumes "k < 128"
  shows "(0x80 OR of_nat k :: byte) AND 0x80 \<noteq> 0"
    and "uint ((0x80 OR of_nat k :: byte) AND 0x7F) = int k"
proof -
  have z: "(of_nat k :: byte) AND 0x80 = 0" using assms by (rule byte_short)
  have "(0x80 OR of_nat k :: byte) AND 0x80 = 0x80"
    by (simp add: bit.conj_disj_distrib2 z)
  then show "(0x80 OR of_nat k :: byte) AND 0x80 \<noteq> 0" by simp
  have "(of_nat k :: byte) AND 0x7F = (of_nat k AND 0x7F) OR (of_nat k AND 0x80)"
    by (simp add: z)
  also have "\<dots> = of_nat k AND (0x7F OR 0x80)"
    by (simp only: bit.conj_disj_distrib)
  also have "(0x7F OR 0x80 :: byte) = - 1" by simp
  also have "of_nat k AND (- 1 :: byte) = of_nat k" by simp
  finally have "(0x80 OR of_nat k :: byte) AND 0x7F = of_nat k"
    by (simp add: bit.conj_disj_distrib2)
  then show "uint ((0x80 OR of_nat k :: byte) AND 0x7F) = int k"
    using assms by (simp add: byte_short)
qed

lemma shift_or_byte:
  assumes "0 \<le> l" "l < 2 ^ 55"
  shows "wrap64 (push_bit 8 l) OR uint (b :: byte) = l * 256 + uint b"
proof -
  have "- (2 ^ 63) \<le> l * 256" "l * 256 < 2 ^ 63" using assms by auto
  then have w: "wrap64 (push_bit 8 l) = l * 256"
    unfolding wrap64_def push_bit_eq_mult by (simp add: signed_take_bit_int_eq_self)
  have "uint b < 2 ^ 8" using uint_bounded [of b] by simp
  then have t: "take_bit 8 (uint b) = uint b"
    by (simp add: take_bit_int_eq_self)
  have "take_bit 8 (uint b) OR push_bit 8 l = take_bit 8 (uint b) + push_bit 8 l"
    using concat_bit_eq [of 8 "uint b" l] by (simp only: concat_bit_def)
  then have o: "l * 256 OR uint b = l * 256 + uint b"
    unfolding t push_bit_eq_mult by (simp add: or.commute add.commute)
  show ?thesis by (simp only: w o)
qed

lemma length_bigEndian [simp]: "length (bigEndian k n) = k"
  by (induction k arbitrary: n) simp_all

lemma accumulate_bigEndian:
  "k \<le> 7 \<Longrightarrow> n < 256 ^ k \<Longrightarrow> accumulateLength (bigEndian k n) = int n"
proof (induction k arbitrary: n)
  case 0
  then show ?case by (simp add: accumulateLength_def)
next
  case (Suc k)
  have small: "n div 256 < 256 ^ k" using Suc.prems(2) by (simp add: less_mult_imp_div_less)
  have "(256 :: nat) ^ k \<le> 256 ^ 6" using Suc.prems(1) by (intro power_increasing) auto
  then have "n div 256 < 2 ^ 48" using small by simp
  then have "int (n div 256) < 2 ^ 48" by (metis of_nat_less_iff of_nat_numeral of_nat_power)
  then have range: "0 \<le> int (n div 256)" "int (n div 256) < 2 ^ 55" by simp_all
  have IH: "accumulateLength (bigEndian k (n div 256)) = int (n div 256)"
    using Suc.prems(1) small by (intro Suc.IH) simp_all
  have lo: "uint (of_nat (n mod 256) :: byte) = int (n mod 256)"
    by (simp add: uint_byte_of_nat)
  have "accumulateLength (bigEndian (Suc k) n) =
      wrap64 (push_bit 8 (accumulateLength (bigEndian k (n div 256)))) OR
        uint (of_nat (n mod 256) :: byte)"
    by (simp add: accumulateLength_def)
  also have "\<dots> = int (n div 256) * 256 + int (n mod 256)"
    unfolding IH using shift_or_byte [OF range, of "of_nat (n mod 256)"] by (simp only: lo)
  also have "\<dots> = int (n div 256 * 256 + n mod 256)"
    by (simp only: of_nat_add of_nat_mult of_nat_numeral)
  also have "\<dots> = int n" by simp
  finally show ?case .
qed

lemma wrap64_small: "- (2 ^ 63) \<le> x \<Longrightarrow> x < 2 ^ 63 \<Longrightarrow> wrap64 x = x"
  unfolding wrap64_def by (simp add: signed_take_bit_int_eq_self)

lemma encodeLength_simps:
  "encodeLength 0 n = [of_nat n]"
  "encodeLength (Suc 0) n = [0x81, of_nat (n mod 256)]"
  "encodeLength 2 n = [0x82, of_nat (n div 256 mod 256), of_nat (n mod 256)]"
  by (simp_all add: encodeLength_def numeral_2_eq_2)

lemma fits_simps:
  "fits 0 n \<longleftrightarrow> n < 128" "fits (Suc 0) n \<longleftrightarrow> n < 256" "fits 2 n \<longleftrightarrow> n < 65536"
  by (simp_all add: fits_def)

lemma encodeLength_length: "length (encodeLength k n) = 1 + k"
  by (simp add: encodeLength_def)

lemma len_encode: "len (encode t) = headerLen t + len (body t)"
  by (simp add: encode_eq headerLen_def len_def encodeLength_length)

lemma parse_encode:
  assumes "wellFormed t"
  shows "parseASN1Element (encode t @ rest) depth offset =
     Done (Inr (elementOf t depth offset, len (encode t)))"
proof -
  let ?n = "length (body t)" and ?k = "lengthForm t"
  have fit: "fits ?k ?n" using assms by (rule wellFormed_fits)
  have n: "int ?n < 2 ^ 56"
    using fits_bound [OF fit] by (metis of_nat_less_iff of_nat_numeral of_nat_power)
  show ?thesis
  proof (cases "?k = 0")
    case True
    then have short: "?n < 128" using fit by (simp add: fits_def)
    have enc: "encode t @ rest = identOctet t # of_nat ?n # body t @ rest"
      by (simp add: encode_eq encodeLength_def True)
    have tot: "wrap64 (2 + int ?n) = 2 + int ?n"
      using short by (intro wrap64_small) auto
    show ?thesis
      unfolding enc parseASN1Element_def elementContent_def Let_def
      using short True
      by (simp add: byte_short len_def elementOf_def headerLen_def tagNumber_def tot
          slice_def len_encode [unfolded len_def])
  next
    case False
    then have k: "0 < ?k" "?k \<le> 7" "?n < 256 ^ ?k" using fit by (simp_all add: fits_def)
    then have k128: "?k < 128" by simp
    have enc: "encode t @ rest =
        identOctet t # (0x80 OR of_nat ?k) # bigEndian ?k ?n @ body t @ rest"
      by (simp add: encode_eq encodeLength_def False)
    have octets: "take ?k (drop 2 (identOctet t # (0x80 OR of_nat ?k) #
        bigEndian ?k ?n @ body t @ rest)) = bigEndian ?k ?n"
      by simp
    have tot: "wrap64 (2 + int ?k + int ?n) = 2 + int ?k + int ?n"
      using n k(2) by (intro wrap64_small) auto
    show ?thesis
      unfolding enc parseASN1Element_def elementContent_def Let_def
      using False k(1)
      by (simp add: long_form_byte [OF k128] accumulate_bigEndian [OF k(2,3)] len_def
          elementOf_def headerLen_def tagNumber_def tot slice_def
          len_encode [unfolded len_def] del: bigEndian.simps)
  qed
qed

lemma len_nonneg: "0 \<le> len xs"
  by (simp add: len_def)

lemma sliceFrom_append: "sliceFrom (pre @ xs) (len pre) = Done xs"
  by (simp add: sliceFrom_def len_def)

lemma slice_content:
  "slice (pre @ encode t @ rest) (len pre + headerLen t)
     (len pre + headerLen t + len (body t)) = Done (body t)"
proof -
  define h where "h = identOctet t # encodeLength (lengthForm t) (length (body t))"
  have h: "encode t = h @ body t" "len h = headerLen t"
    by (simp_all add: h_def encode_eq headerLen_def len_def encodeLength_length)
  have "slice ((pre @ h) @ body t @ rest) (len (pre @ h)) (len (pre @ h) + len (body t))
      = Done (body t)"
    unfolding slice_def len_def by simp
  then show ?thesis using h by (simp add: len_def)
qed

lemma encode_nonempty: "0 < len (encode t)"
  by (simp add: encode_eq len_def)

lemma headerLen_bounds: "2 \<le> headerLen t" "wellFormed t \<Longrightarrow> headerLen t \<le> 9"
proof -
  show "2 \<le> headerLen t" by (simp add: headerLen_def)
  assume "wellFormed t"
  then have "fits (lengthForm t) (length (body t))" by (rule wellFormed_fits)
  then show "headerLen t \<le> 9" by (auto simp: headerLen_def fits_def split: if_splits)
qed

lemma elementOf_simps [simp]:
  "HeaderLen (elementOf t d off) = headerLen t"
  "Length (elementOf t d off) = len (body t)"
  "Tag (elementOf t d off) = tagNumber t"
  "IsCompound (elementOf t d off) = (identOctet t AND 0x20 \<noteq> 0)"
  by (simp_all add: elementOf_def)

lemma content_pos: "0 < len (body t) \<longleftrightarrow> body t \<noteq> []"
  by (simp add: len_def)

lemma checkOID_encoded:
  assumes wf: "wellFormed t" "\<forall>x\<in>set ts. wellFormed x"
    and bound: "len (pre @ encode t @ encodeAll ts) < 2 ^ 63"
  shows "checkOID (pre @ encode t @ encodeAll ts) (len pre) (elementOf t 0 (len pre))
     (len (encode t)) v = Done (recordAll v (recordedAfter t ts))"
proof (cases "tagNumber t = 6 \<and> body t \<noteq> []")
  case False
  then have "recordedAfter t ts = []" by (cases "(t, ts)" rule: recordedAfter.cases) auto
  with False show ?thesis
    by (auto simp: checkOID_def TagObjectID_def content_pos recordAll_def)
next
  case True
  have le: "len pre + len (encode t) \<le> len (pre @ encode t @ encodeAll ts)"
    by (simp add: len_def)
  have nonneg: "0 \<le> len pre" "0 \<le> len (body t)" by (simp_all add: len_def)
  have w1: "wrap64 (len pre + headerLen t + len (body t)) =
      len pre + headerLen t + len (body t)"
    using bound le nonneg headerLen_bounds [of t] by (intro wrap64_small) (auto simp: len_encode)
  have w2: "wrap64 (len pre + len (encode t)) = len pre + len (encode t)"
    using bound le nonneg encode_nonempty [of t] by (intro wrap64_small) auto
  have c: "slice (pre @ encode t @ encodeAll ts) (len pre + headerLen t)
      (wrap64 (len pre + headerLen t + len (body t))) = Done (body t)"
    unfolding w1 by (rule slice_content)
  show ?thesis
  proof (cases ts)
    case Nil
    have all: "len (pre @ encode t @ encodeAll ts) = len pre + len (encode t)"
      by (simp add: Nil encodeAll_def len_def)
    have "recordedAfter t ts = []" by (simp add: Nil)
    then show ?thesis using True
      by (simp add: checkOID_def TagObjectID_def content_pos c w2 Let_def recordAll_def all)
  next
    case (Cons n ns)
    have wfn: "wellFormed n" using wf(2) Cons by simp
    have data: "pre @ encode t @ encodeAll ts = pre @ encode t @ encode n @ encodeAll ns"
      by (simp add: Cons encodeAll_def)
    let ?data = "pre @ encode t @ encode n @ encodeAll ns"
    let ?off = "len pre + len (encode t)"
    have off: "?off = len (pre @ encode t)" by (simp add: len_def)
    have lt: "?off < len ?data"
      by (simp add: len_def encode_eq [of n])
    have win: "sliceFrom ?data ?off = Done (encode n @ encodeAll ns)"
      using sliceFrom_append [of "pre @ encode t" "encode n @ encodeAll ns"]
      by (simp add: off)
    have p: "parseASN1Element (encode n @ encodeAll ns) 0 ?off =
        Done (Inr (elementOf n 0 ?off, len (encode n)))"
      by (rule parse_encode [OF wfn])
    have le2: "?off + len (encode n) \<le> len ?data"
      by (simp add: len_def)
    have w3: "wrap64 (?off + headerLen n + len (body n)) =
        ?off + headerLen n + len (body n)"
      using bound le2 headerLen_bounds [of n] len_nonneg [of "pre"] len_nonneg [of "encode t"]
        len_nonneg [of "body n"] unfolding data
      by (intro wrap64_small) (auto simp: len_encode)
    have vc: "slice ?data (?off + headerLen n)
        (wrap64 (?off + headerLen n + len (body n))) = Done (body n)"
      unfolding w3 using slice_content [of "pre @ encode t" n "encodeAll ns"]
      by (simp add: off)
    have prim: "identOctet n AND 0x20 = 0 \<longleftrightarrow> \<not> (\<exists>b k cs. n = Constructed b k cs)"
      using wfn by (cases n) auto
    have fol: "recordedAfter t ts =
        (if (\<exists>b k cs. n = Constructed b k cs) \<or> body n = [] then []
         else [(parseOID (body t), string_of_bytes (body n))])"
      using True unfolding Cons by (cases n) auto
    have "checkOID ?data (len pre) (elementOf t 0 (len pre))
        (len (encode t)) v = Done (recordAll v (recordedAfter t ts))"
      unfolding checkOID_def Let_def
      using True lt
      by (simp add: TagObjectID_def content_pos c [unfolded data] w2 win p prim vc fol
          recordAll_def)
    then show ?thesis unfolding data .
  qed
qed

lemma wellFormed_ident: "wellFormed t \<Longrightarrow> (identOctet t AND 0x20 \<noteq> 0) = isConstructed t"
  by (cases t) auto

lemma descends_encoded:
  "wellFormed t \<Longrightarrow>
   descends (encode t @ rest) (elementOf t d off) (len (encode t)) \<longleftrightarrow>
     isConstructed t \<and> body t \<noteq> []"
proof -
  assume wf: "wellFormed t"
  have e: "int (length (encode t)) = headerLen t + int (length (body t))"
    using len_encode [of t] by (simp add: len_def)
  show ?thesis
    by (auto simp: descends_def wellFormed_ident [OF wf] len_def e)
qed

lemma contentOf_encoded:
  assumes "len (pre @ encode t @ rest) < 2 ^ 63"
  shows "contentOf (pre @ encode t @ rest) (len pre) (elementOf t d off) = Done (body t)"
proof -
  have "len pre + len (encode t) \<le> len (pre @ encode t @ rest)" by (simp add: len_def)
  then have "wrap64 (len pre + headerLen t + len (body t)) =
      len pre + headerLen t + len (body t)"
    using assms headerLen_bounds [of t] len_nonneg [of pre] len_nonneg [of "body t"]
    by (intro wrap64_small) (auto simp: len_encode)
  then show ?thesis by (simp add: contentOf_def slice_content)
qed

lemma advance_encoded:
  assumes "len (pre @ encode t @ rest) < 2 ^ 63"
  shows "wrap64 (len pre + len (encode t)) = len (pre @ encode t)"
proof -
  have "len pre + len (encode t) \<le> len (pre @ encode t @ rest)" by (simp add: len_def)
  then have "wrap64 (len pre + len (encode t)) = len pre + len (encode t)"
    using assms len_nonneg [of pre] len_nonneg [of "encode t"]
    by (intro wrap64_small) auto
  then show ?thesis by (simp add: len_def)
qed

lemma findFieldsLoop_step:
  assumes wf: "wellFormed t" "\<forall>x\<in>set ts. wellFormed x"
    and bound: "len (pre @ encode t @ encodeAll ts) < 2 ^ 63"
  shows "findFieldsLoop (pre @ encode t @ encodeAll ts) (len pre) v =
     Option.bind
       (if isConstructed t \<and> body t \<noteq> []
        then findFieldsLoop (body t) 0 (recordAll v (recordedAfter t ts))
        else Some (Done (recordAll v (recordedAfter t ts))))
       (\<lambda>r. case r of
          Panic \<Rightarrow> Some Panic
        | Done v2 \<Rightarrow>
            findFieldsLoop (pre @ encode t @ encodeAll ts) (len (pre @ encode t)) v2)"
proof -
  have lt: "len pre < len (pre @ encode t @ encodeAll ts)"
    by (simp add: len_def encode_eq [of t])
  have win: "sliceFrom (pre @ encode t @ encodeAll ts) (len pre) = Done (encode t @ encodeAll ts)"
    by (rule sliceFrom_append)
  show ?thesis
    apply (subst findFieldsLoop.simps)
    apply (simp add: lt win parse_encode [OF wf(1)] checkOID_encoded [OF wf bound]
        descends_encoded [OF wf(1)] contentOf_encoded [OF bound] advance_encoded [OF bound])
    done
qed

lemma encodeAll_simps [simp]:
  "encodeAll [] = []" "encodeAll (t # ts) = encode t @ encodeAll ts"
  by (simp_all add: encodeAll_def)

lemma recordAll_append: "recordAll v (xs @ ys) = recordAll (recordAll v xs) ys"
  by (simp add: recordAll_def)

lemma findFieldsLoop_encoded:
  "\<forall>t\<in>set ts. wellFormed t \<Longrightarrow> len (pre @ encodeAll ts) < 2 ^ 63 \<Longrightarrow>
   findFieldsLoop (pre @ encodeAll ts) (len pre) v = Some (Done (recordAll v (recordedPairs ts)))"
proof (induction ts arbitrary: pre v rule: recordedPairs.induct)
  case 1
  show ?case by (subst findFieldsLoop.simps) (simp add: recordAll_def)
next
  case (2 b k c ts)
  let ?t = "Primitive b k c"
  have wf: "wellFormed ?t" "\<forall>x\<in>set ts. wellFormed x" using "2.prems"(1) by simp_all
  have bound: "len (pre @ encode ?t @ encodeAll ts) < 2 ^ 63" using "2.prems"(2) by simp
  have bound': "len ((pre @ encode ?t) @ encodeAll ts) < 2 ^ 63" using bound by simp
  have "findFieldsLoop (pre @ encode ?t @ encodeAll ts) (len pre) v =
      findFieldsLoop ((pre @ encode ?t) @ encodeAll ts) (len (pre @ encode ?t))
        (recordAll v (recordedAfter ?t ts))"
    by (subst findFieldsLoop_step [OF wf bound]) simp
  also have "\<dots> = Some (Done (recordAll (recordAll v (recordedAfter ?t ts)) (recordedPairs ts)))"
    by (rule "2.IH" [OF wf(2) bound'])
  finally show ?case by (simp add: recordAll_append)
next
  case (3 b k cs ts)
  let ?t = "Constructed b k cs"
  have wf: "wellFormed ?t" "\<forall>x\<in>set ts. wellFormed x" using "3.prems"(1) by simp_all
  have wfc: "\<forall>x\<in>set cs. wellFormed x" and small: "fits k (length (encodeAll cs))"
    using wf(1) by simp_all
  have bound: "len (pre @ encode ?t @ encodeAll ts) < 2 ^ 63" using "3.prems"(2) by simp
  have bound': "len ((pre @ encode ?t) @ encodeAll ts) < 2 ^ 63" using bound by simp
  have boundc: "len ([] @ encodeAll cs) < 2 ^ 63"
    using fits_bound [OF small] by (simp add: len_def)
  let ?v1 = "recordAll v (recordedAfter ?t ts)"
  have inner: "findFieldsLoop (encodeAll cs) 0 ?v1 = Some (Done (recordAll ?v1 (recordedPairs cs)))"
    using "3.IH"(1) [OF wfc boundc, of ?v1] by (simp add: len_def)
  have inner': "recordAll ?v1 (recordedPairs cs) = ?v1" if "encodeAll cs = []"
    using that by (cases cs) (simp_all add: recordAll_def encode_eq)
  have "findFieldsLoop (pre @ encode ?t @ encodeAll ts) (len pre) v =
      findFieldsLoop ((pre @ encode ?t) @ encodeAll ts) (len (pre @ encode ?t))
        (recordAll ?v1 (recordedPairs cs))"
    by (subst findFieldsLoop_step [OF wf bound]) (simp add: inner inner')
  also have "\<dots> = Some (Done (recordAll (recordAll ?v1 (recordedPairs cs)) (recordedPairs ts)))"
    by (rule "3.IH"(2) [OF wf(2) bound'])
  finally show ?case by (simp add: recordAll_append)
qed

lemma lastIsOctetString_elementOf:
  assumes "wellFormed t"
  shows "lastIsOctetString (elementOf t d off) k =
     (if tagNumber t = 4 then 8 * len (body t) else k)"
proof -
  have "length (body t) < 2 ^ 56" using assms by (rule content_bound)
  then have "wrap64 (len (body t) * 8) = len (body t) * 8"
    by (intro wrap64_small) (auto simp: len_def)
  then show ?thesis by (simp add: lastIsOctetString_def TagOctetString_def)
qed

lemma findLastLoop_step:
  assumes wf: "wellFormed t"
    and bound: "len (pre @ encode t @ rest) < 2 ^ 63"
  shows "findLastLoop (pre @ encode t @ rest) (len pre) lastE k depth =
     Option.bind
       (if isConstructed t \<and> body t \<noteq> []
        then findLastLoop (body t) 0 zeroElement k (wrap64 (depth + 1))
        else Some (Done k))
       (\<lambda>r. case r of
          Panic \<Rightarrow> Some Panic
        | Done k1 \<Rightarrow>
            findLastLoop (pre @ encode t @ rest) (len (pre @ encode t))
              (elementOf t depth (len pre)) k1 depth)"
proof -
  have lt: "len pre < len (pre @ encode t @ rest)"
    by (simp add: len_def encode_eq [of t])
  have win: "sliceFrom (pre @ encode t @ rest) (len pre) = Done (encode t @ rest)"
    by (rule sliceFrom_append)
  show ?thesis
    apply (subst findLastLoop.simps)
    apply (simp add: lt win parse_encode [OF wf]
        descends_encoded [OF wf] contentOf_encoded [OF bound] advance_encoded [OF bound])
    done
qed

lemma afterRegion_cons:
  "wellFormed t \<Longrightarrow> afterRegion (elementOf t d off) ts k = keyUpdate k (t # ts)"
  by (cases ts) (simp_all add: afterRegion_def keyUpdate_def endsInTag4_def
      lastIsOctetString_elementOf)

lemma afterRegion_nonempty: "afterRegion lastE (t # ts) k = keyUpdate k (t # ts)"
  by (simp add: afterRegion_def)

lemma findLastLoop_encoded:
  "\<forall>t\<in>set ts. wellFormed t \<Longrightarrow> len (pre @ encodeAll ts) < 2 ^ 63 \<Longrightarrow>
   findLastLoop (pre @ encodeAll ts) (len pre) lastE k depth =
     Some (Done (afterRegion lastE ts (foldl keyUpdate k (below ts))))"
proof (induction ts arbitrary: pre lastE k depth rule: below.induct)
  case 1
  show ?case by (subst findLastLoop.simps) (simp add: afterRegion_def)
next
  case (2 b m c ts)
  let ?t = "Primitive b m c"
  have wf: "wellFormed ?t" "\<forall>x\<in>set ts. wellFormed x" using "2.prems"(1) by simp_all
  have bound: "len (pre @ encode ?t @ encodeAll ts) < 2 ^ 63" using "2.prems"(2) by simp
  have bound': "len ((pre @ encode ?t) @ encodeAll ts) < 2 ^ 63" using bound by simp
  have "findLastLoop (pre @ encode ?t @ encodeAll ts) (len pre) lastE k depth =
      findLastLoop ((pre @ encode ?t) @ encodeAll ts) (len (pre @ encode ?t))
        (elementOf ?t depth (len pre)) k depth"
    by (subst findLastLoop_step [OF wf(1) bound]) simp
  also have "\<dots> = Some (Done (afterRegion (elementOf ?t depth (len pre)) ts
      (foldl keyUpdate k (below ts))))"
    by (rule "2.IH" [OF wf(2) bound'])
  finally show ?case by (simp add: afterRegion_cons [OF wf(1)] afterRegion_nonempty)
next
  case (3 b m cs ts)
  let ?t = "Constructed b m cs"
  have wf: "wellFormed ?t" "\<forall>x\<in>set ts. wellFormed x" using "3.prems"(1) by simp_all
  have wfc: "\<forall>x\<in>set cs. wellFormed x" and small: "fits m (length (encodeAll cs))"
    using wf(1) by simp_all
  have bound: "len (pre @ encode ?t @ encodeAll ts) < 2 ^ 63" using "3.prems"(2) by simp
  have bound': "len ((pre @ encode ?t) @ encodeAll ts) < 2 ^ 63" using bound by simp
  have boundc: "len ([] @ encodeAll cs) < 2 ^ 63"
    using fits_bound [OF small] by (simp add: len_def)
  let ?k1 = "foldl keyUpdate k (if cs = [] then [] else below cs @ [cs])"
  have empty: "encodeAll cs = [] \<longleftrightarrow> cs = []"
    by (cases cs) (simp_all add: encode_eq)
  have inner: "findLastLoop (encodeAll cs) 0 zeroElement k (wrap64 (depth + 1)) =
      Some (Done ?k1)" if "cs \<noteq> []"
    using "3.IH"(1) [OF that wfc boundc, of zeroElement k "wrap64 (depth + 1)"] that
    by (simp add: len_def afterRegion_def)
  have "findLastLoop (pre @ encode ?t @ encodeAll ts) (len pre) lastE k depth =
      findLastLoop ((pre @ encode ?t) @ encodeAll ts) (len (pre @ encode ?t))
        (elementOf ?t depth (len pre)) ?k1 depth"
    by (subst findLastLoop_step [OF wf(1) bound]) (simp add: inner empty)
  also have "\<dots> = Some (Done (afterRegion (elementOf ?t depth (len pre)) ts
      (foldl keyUpdate ?k1 (below ts))))"
    by (rule "3.IH"(2) [OF wf(2) bound'])
  finally show ?case by (simp add: afterRegion_cons [OF wf(1)] afterRegion_nonempty)
qed

lemma foldl_keyUpdate: "foldl keyUpdate 0 rs = keyOfRegions rs"
proof (induction rs rule: rev_induct)
  case Nil
  show ?case by (simp add: keyOfRegions_def)
next
  case (snoc r rs)
  show ?case
  proof (cases "endsInTag4 r")
    case True
    then show ?thesis
      by (simp add: keyUpdate_def keyOfRegions_def split: list.splits)
        (metis last_snoc last_ConsR)
  next
    case False
    then show ?thesis using snoc by (simp add: keyUpdate_def keyOfRegions_def)
  qed
qed

lemma calculateKeySize_encoded:
  assumes "\<forall>t\<in>set ts. wellFormed t" "length (encodeAll ts) < 2 ^ 63"
  shows "calculateKeySize (encodeAll ts) = Some (Done (keyOfRegions (regions ts)))"
proof -
  have "len ([] @ encodeAll ts) < 2 ^ 63" using assms(2) by (simp add: len_def)
  from findLastLoop_encoded [OF assms(1) this, of zeroElement 0 0]
  have "calculateKeySize (encodeAll ts) =
      Some (Done (afterRegion zeroElement ts (foldl keyUpdate 0 (below ts))))"
    by (simp add: calculateKeySize_def findLastOctetString_def len_def)
  moreover have "afterRegion zeroElement ts k = keyUpdate k ts" for k
    by (simp add: afterRegion_def keyUpdate_def endsInTag4_def lastIsOctetString_def
        zeroElement_def TagOctetString_def)
  ultimately show ?thesis
    by (simp add: regions_def flip: foldl_keyUpdate)
qed

subsection \<open>Recorded attributes\<close>

lemma oids_distinct: "distinct recognized"
  by (simp add: recognized_def OIDCommonName_def OIDCountryName_def OIDLocalityName_def
      OIDOrganizationName_def OIDEmailAddress_def)

lemma recorded_set:
  assumes "oid \<in> set recognized"
  shows "recorded oid (setValidationField v o' x) = (if o' = oid then (True, x) else recorded oid v)"
  using assms oids_distinct
  by (auto simp: recognized_def recorded_def setValidationField_def)

lemma recorded_recordAll:
  assumes "oid \<in> set recognized"
  shows "recorded oid (recordAll v ps) =
     (case filter (\<lambda>p. fst p = oid) ps of
        [] \<Rightarrow> recorded oid v
      | q # qs \<Rightarrow> (True, snd (last (q # qs))))"
proof (induction ps rule: rev_induct)
  case Nil
  show ?case by (simp add: recordAll_def)
next
  case (snoc p ps)
  have "recordAll v (ps @ [p]) = setValidationField (recordAll v ps) (fst p) (snd p)"
    by (simp add: recordAll_def)
  then show ?case using snoc
    by (auto simp: recorded_set [OF assms] split: list.splits)
qed

subsection \<open>Structures in which a tag number belongs to the universal class\<close>

text \<open>
  The walks test the tag number of an element and neither its class nor whether it is
  constructed. On a structure in which tag number 4 is borne by OCTET STRINGs only, or tag
  number 6 by OBJECT IDENTIFIERs only, the test singles out the elements that the
  specification speaks of.
\<close>

lemma visited_top: "set ts \<subseteq> set (visited ts)"
  by (induction ts rule: visited.induct) auto

lemma below_visited: "r \<in> set (below ts) \<Longrightarrow> set r \<subseteq> set (visited ts)"
proof (induction ts rule: below.induct)
  case 1
  then show ?case by simp
next
  case (2 b k c ts)
  then show ?case by auto
next
  case (3 b k cs ts)
  then show ?case using visited_top [of cs] by (auto split: if_splits)
qed

lemma regions_visited: "r \<in> set (regions ts) \<Longrightarrow> set r \<subseteq> set (visited ts)"
  using below_visited [of r ts] visited_top [of ts] by (auto simp: regions_def)

lemma tagNumber_4: "identOctet t = 0x04 \<Longrightarrow> tagNumber t = 4"
  by (simp add: tagNumber_def)

lemma tagNumber_6: "identOctet t = 0x06 \<Longrightarrow> tagNumber t = 6"
  by (simp add: tagNumber_def)

lemma octetString_tag:
  assumes "onlyUniversal 0x04 ts" and "t \<in> set (visited ts)"
  shows "tagNumber t = 4 \<longleftrightarrow> isOctetString t"
  using assms tagNumber_4 [of t] by (auto simp: onlyUniversal_def isOctetString_def)

lemma endsInTag4_octetString:
  assumes "onlyUniversal 0x04 ts" and "r \<in> set (regions ts)"
  shows "endsInTag4 r \<longleftrightarrow> endsInOctetString r"
proof (cases "r = []")
  case True
  then show ?thesis by (simp add: endsInTag4_def endsInOctetString_def)
next
  case False
  then have "last r \<in> set (visited ts)" using regions_visited [OF assms(2)] by auto
  from octetString_tag [OF assms(1) this] show ?thesis
    by (simp add: endsInTag4_def endsInOctetString_def)
qed

lemma keyOfRegions_regionKeySize:
  assumes "onlyUniversal 0x04 ts"
  shows "keyOfRegions (regions ts) = regionKeySize ts"
proof -
  have "filter endsInTag4 (regions ts) = filter endsInOctetString (regions ts)"
    using endsInTag4_octetString [OF assms] by (intro filter_cong) auto
  then show ?thesis by (simp add: keyOfRegions_def regionKeySize_def)
qed

lemma onlyUniversal_Cons:
  "onlyUniversal n (t # ts) \<Longrightarrow> onlyUniversal n ts"
  "onlyUniversal n (Constructed b k cs # ts) \<Longrightarrow> onlyUniversal n cs"
  "onlyUniversal n (t # ts) \<Longrightarrow> tagNumber t = uint n \<Longrightarrow> identOctet t = n"
  by (cases t; auto simp: onlyUniversal_def)+

lemma recordedAfter_following:
  assumes "tagNumber t = 6 \<longrightarrow> identOctet t = 0x06"
  shows "recordedAfter t ts = following t ts"
  using assms tagNumber_6 [of t] by (cases "(t, ts)" rule: following.cases) auto

lemma recordedPairs_occurrences:
  "onlyUniversal 0x06 ts \<Longrightarrow> recordedPairs ts = occurrences ts"
proof (induction ts rule: occurrences.induct)
  case 1
  then show ?case by simp
next
  case (2 b k c ts)
  from onlyUniversal_Cons(3) [OF 2(2)]
  have "recordedAfter (Primitive b k c) ts = following (Primitive b k c) ts"
    by (intro recordedAfter_following) simp
  with 2 onlyUniversal_Cons(1) [OF 2(2)] show ?case by simp
next
  case (3 b k cs ts)
  from onlyUniversal_Cons(3) [OF 3(3)]
  have "recordedAfter (Constructed b k cs) ts = following (Constructed b k cs) ts"
    by (intro recordedAfter_following) simp
  with 3 onlyUniversal_Cons(1) [OF 3(3)] onlyUniversal_Cons(2) [OF 3(3)] show ?case by simp
qed

lemma visited_Nil: "visited ts = [] \<longleftrightarrow> ts = []"
  by (cases ts rule: visited.cases) simp_all

lemma keyUpdate_Cons: "ts \<noteq> [] \<Longrightarrow> keyUpdate k (t # ts) = keyUpdate k ts"
  by (simp add: keyUpdate_def endsInTag4_def)

lemma last_visited_key:
  assumes "\<forall>u \<in> set (visited ts). tagNumber u = 4 \<longrightarrow> \<not> isConstructed u"
    and "ts \<noteq> []" and "tagNumber (last (visited ts)) = 4"
  shows "foldl keyUpdate k (below ts @ [ts]) = 8 * len (body (last (visited ts)))"
  using assms
proof (induction ts arbitrary: k rule: below.induct)
  case 1
  then show ?case by simp
next
  case (2 b m c ts)
  show ?case
  proof (cases "ts = []")
    case True
    with 2(4) show ?thesis by (simp add: keyUpdate_def endsInTag4_def)
  next
    case False
    then have v: "visited ts \<noteq> []" by (simp add: visited_Nil)
    from 2(1) [of k] 2(2-4) False v keyUpdate_Cons [OF False] show ?thesis by simp
  qed
next
  case (3 b m cs ts)
  let ?t = "Constructed b m cs"
  show ?case
  proof (cases "ts = []")
    case True
    note ts = this
    show ?thesis
    proof (cases "cs = []")
      case True
      with ts 3(3,5) show ?thesis by simp
    next
      case False
      then have v: "visited cs \<noteq> []" by (simp add: visited_Nil)
      have "tagNumber ?t \<noteq> 4" using 3(3) by auto
      then have skip: "keyUpdate k' [?t] = k'" for k'
        by (simp add: keyUpdate_def endsInTag4_def)
      from 3(1) [OF False, of k] 3(3,5) False v ts skip show ?thesis by simp
    qed
  next
    case False
    then have v: "visited ts \<noteq> []" by (simp add: visited_Nil)
    from 3(2) [of "foldl keyUpdate k (if cs = [] then [] else below cs @ [cs])"]
      3(3-5) False v keyUpdate_Cons [OF False]
    show ?thesis by simp
  qed
qed

lemma wellFormed_visited: "\<forall>t \<in> set ts. wellFormed t \<Longrightarrow> u \<in> set (visited ts) \<Longrightarrow> wellFormed u"
  by (induction ts rule: visited.induct) auto

lemma last_visited_regionKeySize:
  assumes "\<forall>t \<in> set ts. wellFormed t" and "onlyUniversal 0x04 ts"
    and "ts \<noteq> []" and "isOctetString (last (visited ts))"
  shows "regionKeySize ts = claimedKeySize ts"
proof -
  have v: "visited ts \<noteq> []" using assms(3) by (simp add: visited_Nil)
  have prim: "\<forall>u \<in> set (visited ts). tagNumber u = 4 \<longrightarrow> \<not> isConstructed u"
  proof (intro ballI impI)
    fix u assume u: "u \<in> set (visited ts)" and "tagNumber u = 4"
    then have "identOctet u = 0x04" using assms(2) by (simp add: onlyUniversal_def)
    moreover have "(identOctet u AND 0x20 \<noteq> 0) = isConstructed u"
      using wellFormed_visited [OF assms(1) u] by (rule wellFormed_ident)
    ultimately show "\<not> isConstructed u" by simp
  qed
  have "tagNumber (last (visited ts)) = 4"
    using assms(4) by (simp add: isOctetString_def tagNumber_4)
  from last_visited_key [OF prim assms(3) this, of 0]
  have "keyOfRegions (regions ts) = 8 * len (body (last (visited ts)))"
    by (simp add: regions_def flip: foldl_keyUpdate)
  moreover have "claimedKeySize ts = 8 * len (body (last (visited ts)))"
  proof (cases "visited ts")
    case Nil
    with v show ?thesis by simp
  next
    case (Cons x xs)
    with assms(4) show ?thesis by (simp add: claimedKeySize_def)
  qed
  ultimately show ?thesis using keyOfRegions_regionKeySize [OF assms(2)] by simp
qed

lemma last_occurrence_recorded:
  assumes "\<forall>t\<in>set ts. wellFormed t" and "onlyUniversal 0x06 ts"
    and "length (encodeAll ts) < 2 ^ 63"
    and "oid \<in> set recognized" and "filter (\<lambda>p. fst p = oid) (occurrences ts) \<noteq> []"
  shows "\<exists>v'. findFieldsInASN1 (encodeAll ts) v = Some (Done v') \<and>
     recorded oid v' = (True, snd (last (filter (\<lambda>p. fst p = oid) (occurrences ts))))"
proof -
  have "len ([] @ encodeAll ts) < 2 ^ 63" using assms(3) by (simp add: len_def)
  from findFieldsLoop_encoded [OF assms(1) this, of v]
  have "findFieldsInASN1 (encodeAll ts) v = Some (Done (recordAll v (occurrences ts)))"
    by (simp add: findFieldsInASN1_def len_def recordedPairs_occurrences [OF assms(2)])
  moreover have "recorded oid (recordAll v (occurrences ts)) =
      (True, snd (last (filter (\<lambda>p. fst p = oid) (occurrences ts))))"
    using assms(5) by (simp add: recorded_recordAll [OF assms(4)] split: list.splits)
  ultimately show ?thesis by simp
qed

lemma two_names_recorded:
  "encodeAll twoNames =
     [0x30, 0x18, 0x31, 0x0A, 0x30, 0x08, 0x06, 0x03, 0x55, 0x04, 0x03, 0x0C, 0x01, 0x41,
      0x31, 0x0A, 0x30, 0x08, 0x06, 0x03, 0x55, 0x04, 0x03, 0x0C, 0x01, 0x42]
   \<and> occurrences twoNames = [(''2.5.4.3'', ''A''), (''2.5.4.3'', ''B'')]
   \<and> (\<exists>v'. findFieldsInASN1 (encodeAll twoNames) zeroValidation = Some (Done v') \<and>
          recorded OIDCommonName v' = (True, ''B''))"
proof -
  have occ: "occurrences twoNames = [(''2.5.4.3'', ''A''), (''2.5.4.3'', ''B'')]"
    by (simp add: twoNames_def parseOID_def Let_def digit_def
        string_of_bytes_def char_of_def bit_iff_odd)
  have h1: "\<forall>t\<in>set twoNames. wellFormed t"
    by (simp add: twoNames_def encodeLength_simps fits_simps)
  have h2: "onlyUniversal 0x06 twoNames"
    by (simp add: onlyUniversal_def twoNames_def tagNumber_def)
  have h3: "length (encodeAll twoNames) < 2 ^ 63"
    by (simp add: twoNames_def encodeLength_simps fits_simps)
  have h4: "OIDCommonName \<in> set recognized" by (simp add: recognized_def)
  have h5: "filter (\<lambda>p. fst p = OIDCommonName) (occurrences twoNames) \<noteq> []"
    by (simp add: occ OIDCommonName_def)
  have bytes: "encodeAll twoNames =
       [0x30, 0x18, 0x31, 0x0A, 0x30, 0x08, 0x06, 0x03, 0x55, 0x04, 0x03, 0x0C, 0x01, 0x41,
        0x31, 0x0A, 0x30, 0x08, 0x06, 0x03, 0x55, 0x04, 0x03, 0x0C, 0x01, 0x42]"
    by (simp add: twoNames_def encodeLength_simps fits_simps)
  have "snd (last (filter (\<lambda>p. fst p = OIDCommonName) (occurrences twoNames))) = ''B''"
    by (simp add: occ OIDCommonName_def)
  with last_occurrence_recorded [OF h1 h2 h3 h4 h5, of zeroValidation] occ bytes
  show ?thesis by simp
qed

subsection \<open>The backward search\<close>

lemma findValidLoop_candidate:
  assumes "0 \<le> i" "i \<le> len data"
  shows "findValidLoop unmarshal data i =
     (case candidate unmarshal data i of
        None \<Rightarrow> None
      | Some Crashed \<Rightarrow> Some Panic
      | Some (Accepted raw) \<Rightarrow> Some (Done (Inr (raw, i)))
      | Some Rejected \<Rightarrow> findValidLoop unmarshal data (i - 1))"
proof -
  have sl: "sliceFrom data i = Done (drop (nat i) data)"
    using assms by (simp add: sliceFrom_def)
  note step = findValidLoop.simps [of unmarshal data i, folded marker_def]
  show ?thesis
  proof (cases "marker data i")
    case False
    then show ?thesis using assms(1)
      by (simp add: step candidate_def)
  next
    case True
    note m = True
    show ?thesis
    proof (cases "unmarshal (drop (nat i) data)")
      case None
      then show ?thesis using assms(1) m True
        by (simp add: step candidate_def sl)
    next
      case (Some p)
      obtain raw rest where p: "p = (raw, rest)" by (cases p)
      show ?thesis
      proof (cases "validateSignatureFields (FullBytes raw)")
        case None
        then show ?thesis using assms(1) m True Some p
          by (simp add: step candidate_def sl)
      next
        case (Some r)
        then show ?thesis using assms(1) m True \<open>unmarshal (drop (nat i) data) = Some p\<close> p
          by (cases r) (simp_all add: step candidate_def sl)
      qed
    qed
  qed
qed

lemma findValidLoop_skip:
  assumes "\<forall>j. i < j \<and> j \<le> n \<longrightarrow> candidate unmarshal data j = Some Rejected"
    and "- 1 \<le> i" "i \<le> n" "n \<le> len data"
  shows "findValidLoop unmarshal data n = findValidLoop unmarshal data i"
  using assms
proof (induction "nat (n - i)" arbitrary: n)
  case 0
  then show ?case by simp
next
  case (Suc k)
  then have n: "i < n" "0 \<le> n" by auto
  have "candidate unmarshal data n = Some Rejected" using Suc.prems(1) n by simp
  then have "findValidLoop unmarshal data n = findValidLoop unmarshal data (n - 1)"
    using findValidLoop_candidate [of n data unmarshal] n Suc.prems(4) by simp
  also have "\<dots> = findValidLoop unmarshal data i"
    using Suc.hyps(2) Suc.prems n by (intro Suc.hyps(1)) auto
  finally show ?case .
qed

lemma findValidLoop_none: "findValidLoop unmarshal data (- 1) = Some (Done (Inl NoValidSignature))"
  by (simp add: findValidLoop.simps [of unmarshal data "- 1"])

lemma FindValidSignature_accepts:
  assumes "0 \<le> i" "i + 2 \<le> len data"
    and "candidate unmarshal data i = Some (Accepted raw)"
    and "\<forall>j. i < j \<and> j + 2 \<le> len data \<longrightarrow> candidate unmarshal data j = Some Rejected"
  shows "FindValidSignature unmarshal data = Some (Done (Inr (raw, i)))"
proof -
  have "findValidLoop unmarshal data (len data - 2) = findValidLoop unmarshal data i"
    using assms by (intro findValidLoop_skip) auto
  also have "\<dots> = Some (Done (Inr (raw, i)))"
    using findValidLoop_candidate [of i data unmarshal] assms by simp
  finally show ?thesis by (simp add: FindValidSignature_def)
qed

lemma FindValidSignature_exhausted:
  assumes "\<forall>j. 0 \<le> j \<and> j + 2 \<le> len data \<longrightarrow> candidate unmarshal data j = Some Rejected"
  shows "FindValidSignature unmarshal data = Some (Done (Inl NoValidSignature))"
proof (cases "2 \<le> len data")
  case True
  have "findValidLoop unmarshal data (len data - 2) = findValidLoop unmarshal data (- 1)"
    using assms True by (intro findValidLoop_skip) auto
  then show ?thesis by (simp add: FindValidSignature_def findValidLoop_none)
next
  case False
  then have "\<not> 0 \<le> len data - 2" by simp
  then show ?thesis
    unfolding FindValidSignature_def
    by (simp add: findValidLoop.simps [of unmarshal data "len data - 2"])
qed

lemma FindValidSignature_stuck:
  assumes "0 \<le> i" "i + 2 \<le> len data"
    and "candidate unmarshal data i = None"
    and "\<forall>j. i < j \<and> j + 2 \<le> len data \<longrightarrow> candidate unmarshal data j = Some Rejected"
  shows "FindValidSignature unmarshal data = None"
proof -
  have "findValidLoop unmarshal data (len data - 2) = findValidLoop unmarshal data i"
    using assms by (intro findValidLoop_skip) auto
  also have "\<dots> = None"
    using findValidLoop_candidate [of i data unmarshal] assms by simp
  finally show ?thesis by (simp add: FindValidSignature_def)
qed

lemma no_marker:
  assumes "0x30 \<notin> set (drop (nat i) data)" "0 \<le> i" "i < len data"
  shows "\<not> marker data i"
proof -
  have "nat i < length data" using assms(2,3) by (simp add: len_def)
  then have "drop (nat i) data = data ! nat i # drop (Suc (nat i)) data"
    by (simp add: Cons_nth_drop_Suc)
  then have "data ! nat i \<in> set (drop (nat i) data)" by simp
  with assms(1) show ?thesis by (auto simp: marker_def)
qed

subsection \<open>A structure with the five attributes\<close>

lemma signatureBytes_encode: "signatureBytes = encode signatureTree"
  by (simp add: signatureBytes_def signatureTree_def encodeLength_simps fits_simps)

lemma signatureTree_wf: "wellFormed signatureTree"
  by (simp add: signatureTree_def encodeLength_simps fits_simps)

lemma signature_length: "length signatureBytes = 260"
  by (simp add: signatureBytes_def)

lemma signature_tail: "0x30 \<notin> set (tl signatureBytes)"
  by (simp add: signatureBytes_def)

lemma signature_recordedPairs:
  "recordedPairs [signatureTree] =
     [(''2.5.4.3'', ''A''), (''2.5.4.6'', ''B''), (''2.5.4.7'', ''C''), (''2.5.4.10'', ''D''),
      (''1.2.840.113549.1.9.1'', ''E'')]"
  by (simp add: signatureTree_def tagNumber_def parseOID_def Let_def digit_def
      string_of_bytes_def char_of_def bit_iff_odd)

lemma validate_encoded:
  assumes "wellFormed t"
  shows "validateSignatureFields (encode t) =
     Some (Done (recordAll zeroValidation (recordedPairs [t])))"
proof -
  have "length (body t) < 2 ^ 56" using assms by (rule content_bound)
  then have "len ([] @ encodeAll [t]) < 2 ^ 63"
    using len_encode [of t] headerLen_bounds [of t] assms by (simp add: len_def)
  from findFieldsLoop_encoded [OF _ this, of zeroValidation] assms
  show ?thesis by (simp add: validateSignatureFields_def findFieldsInASN1_def len_def)
qed

lemma validate_signature: "validateSignatureFields signatureBytes = Some (Done signatureFields)"
  unfolding signatureBytes_encode validate_encoded [OF signatureTree_wf] signature_recordedPairs
  by (simp add: recordAll_def setValidationField_def zeroValidation_def signatureFields_def
      OIDCommonName_def OIDCountryName_def OIDLocalityName_def OIDOrganizationName_def
      OIDEmailAddress_def)

lemma unmarshalTLV_encode:
  assumes "wellFormed t"
  shows "unmarshalTLV (encode t @ rest) = Some (rawOf t, rest)"
proof -
  define h where "h = identOctet t # encodeLength (lengthForm t) (length (body t))"
  have h: "encode t = h @ body t" "length h = nat (headerLen t)"
    by (simp_all add: h_def encode_eq headerLen_def encodeLength_length)
  have n: "nat (len (encode t)) = length (encode t)" "nat (len (body t)) = length (body t)"
    by (simp_all add: len_def)
  have d1: "drop (nat (headerLen t)) (encode t @ rest) = body t @ rest"
    using h by simp
  have t1: "take (nat (len (body t))) (body t @ rest) = body t"
    and t2: "take (nat (len (encode t))) (encode t @ rest) = encode t"
    and d2: "drop (nat (len (encode t))) (encode t @ rest) = rest"
    by (simp_all add: n)
  show ?thesis
    by (simp add: unmarshalTLV_def parse_encode [OF assms] rawOf_def elementOf_def d1 t1 t2 d2
        del: drop_append take_append)
qed

lemma rejected_after:
  assumes "0x30 \<notin> set (drop (nat i + 1) data)" "0 \<le> i"
  shows "\<forall>j. i < j \<and> j + 2 \<le> len data \<longrightarrow> candidate unmarshal data j = Some Rejected"
proof (intro allI impI)
  fix j
  assume j: "i < j \<and> j + 2 \<le> len data"
  then have "nat i + 1 \<le> nat j" using assms(2) by linarith
  then have "set (drop (nat j) data) \<subseteq> set (drop (nat i + 1) data)"
    by (rule set_drop_subset_set_drop)
  with assms(1) have "0x30 \<notin> set (drop (nat j) data)" by blast
  then have "\<not> marker data j" using j assms(2) by (intro no_marker) auto
  then show "candidate unmarshal data j = Some Rejected" by (simp add: candidate_def)
qed

lemma signature_raw: "unmarshalTLV (signatureBytes @ rest) = Some (rawOf signatureTree, rest)"
  unfolding signatureBytes_encode by (rule unmarshalTLV_encode [OF signatureTree_wf])

lemma signature_candidate:
  "candidate unmarshalTLV (pre @ signatureBytes @ rest) (len pre) =
     Some (Accepted (rawOf signatureTree))"
proof -
  have n: "nat (len pre) = length pre" "nat (len pre + 1) = length pre + 1"
    by (simp_all add: len_def nat_add_distrib)
  have "(pre @ signatureBytes @ rest) ! (length pre + 0) = 0x30"
    "(pre @ signatureBytes @ rest) ! (length pre + 1) = 0x82"
    unfolding nth_append_length_plus by (simp_all add: signatureBytes_def)
  then have m: "marker (pre @ signatureBytes @ rest) (len pre)"
    by (simp add: marker_def n)
  have d: "drop (nat (len pre)) (pre @ signatureBytes @ rest) = signatureBytes @ rest"
    by (simp add: len_def)
  have v: "validateSignatureFields (FullBytes (rawOf signatureTree)) = Some (Done signatureFields)"
    using validate_signature by (simp add: rawOf_def signatureBytes_encode)
  show ?thesis
    by (simp add: candidate_def m d signature_raw v IsValid_def signatureFields_def
        del: drop_append)
qed

subsection \<open>Nesting and long runs of siblings\<close>

lemma nested_length:
  "2 * n + length (encode p) < 130 \<Longrightarrow> length (encode (nested n p)) = 2 * n + length (encode p)"
  by (induction n) (simp_all add: encodeLength_simps fits_simps)

lemma nested_wellFormed:
  "wellFormed p \<Longrightarrow> 2 * n + length (encode p) < 130 \<Longrightarrow> wellFormed (nested n p)"
  by (induction n) (simp_all add: nested_length fits_simps)

lemma keyUpdate_sequence: "keyUpdate k [Constructed 0x30 0 cs] = k"
  by (simp add: keyUpdate_def endsInTag4_def tagNumber_def)

lemma nested_regions:
  "foldl keyUpdate k (regions [nested n (Primitive 0x04 0 c)]) = 8 * len c"
proof (induction n)
  case 0
  show ?case by (simp add: regions_def keyUpdate_def endsInTag4_def tagNumber_def)
next
  case (Suc n)
  have "regions [nested (Suc n) (Primitive 0x04 0 c)] =
      regions [nested n (Primitive 0x04 0 c)] @ [[nested (Suc n) (Primitive 0x04 0 c)]]"
    by (simp add: regions_def)
  then have "foldl keyUpdate k (regions [nested (Suc n) (Primitive 0x04 0 c)]) =
      keyUpdate (foldl keyUpdate k (regions [nested n (Primitive 0x04 0 c)]))
        [nested (Suc n) (Primitive 0x04 0 c)]"
    by simp
  then show ?case by (simp add: Suc keyUpdate_sequence)
qed

lemma nested_key_size:
  "calculateKeySize (encode (nested 52 (Primitive 0x04 0 [0xAA]))) = Some (Done 8)"
proof -
  let ?p = "Primitive 0x04 0 [0xAA]"
  have wf: "\<forall>t\<in>set [nested 52 ?p]. wellFormed t"
    by (simp add: nested_wellFormed encodeLength_simps fits_simps)
  have l: "length (encodeAll [nested 52 ?p]) < 2 ^ 63"
    by (simp add: nested_length encodeLength_simps fits_simps)
  have "keyOfRegions (regions [nested 52 ?p]) = 8"
    using nested_regions [of 0 52 "[0xAA]"] by (simp add: foldl_keyUpdate len_def)
  with calculateKeySize_encoded [OF wf l] show ?thesis by simp
qed

lemma recordedAfter_null: "recordedAfter (Primitive 0x05 0 []) xs = []"
proof (cases xs)
  case Nil
  then show ?thesis by simp
next
  case (Cons x xs')
  then show ?thesis by (cases x) simp_all
qed

lemma recordedPairs_nulls:
  "recordedPairs (replicate n (Primitive 0x05 0 []) @ ts) = recordedPairs ts"
  by (induction n) (simp_all add: recordedAfter_null)

lemma encodeAll_append: "encodeAll (xs @ ys) = encodeAll xs @ encodeAll ys"
  by (simp add: encodeAll_def)

lemma encodeAll_nulls:
  "encodeAll (replicate n (Primitive 0x05 0 [])) = concat (replicate n [0x05, 0x00])"
  by (induction n) (simp_all add: encodeLength_simps fits_simps)

lemma length_nulls: "length (concat (replicate n [a, b])) = 2 * n"
  by (induction n) simp_all

lemma many_siblings:
  assumes "2 * int n + 8 < 2 ^ 63"
  shows "findFieldsInASN1 (concat (replicate n [0x05, 0x00]) @
      [0x06, 0x03, 0x55, 0x04, 0x03, 0x0C, 0x01, 0x41]) zeroValidation =
     Some (Done (zeroValidation\<lparr>HasCommonName := True, CommonName := ''A''\<rparr>))"
proof -
  let ?name = "[Primitive 0x06 0 [0x55, 0x04, 0x03], Primitive 0x0C 0 [0x41]]"
  let ?ts = "replicate n (Primitive 0x05 0 []) @ ?name"
  have name: "encodeAll ?name = [0x06, 0x03, 0x55, 0x04, 0x03, 0x0C, 0x01, 0x41]"
    by (simp add: encodeLength_simps fits_simps)
  have bytes: "encodeAll ?ts = concat (replicate n [0x05, 0x00]) @
      [0x06, 0x03, 0x55, 0x04, 0x03, 0x0C, 0x01, 0x41]"
    unfolding encodeAll_append encodeAll_nulls name ..
  have wf: "\<forall>t\<in>set ?ts. wellFormed t" by (auto simp: fits_simps)
  have "len ([] @ encodeAll ?ts) = 2 * int n + 8"
    unfolding bytes by (simp add: len_def length_nulls)
  then have l: "len ([] @ encodeAll ?ts) < 2 ^ 63" using assms by simp
  have "recordedPairs ?name = [(''2.5.4.3'', ''A'')]"
    by (simp add: tagNumber_def parseOID_def Let_def digit_def string_of_bytes_def
        char_of_def bit_iff_odd)
  then have occ: "recordedPairs ?ts = [(''2.5.4.3'', ''A'')]"
    unfolding recordedPairs_nulls .
  from findFieldsLoop_encoded [OF wf l, of zeroValidation]
  have "findFieldsInASN1 (encodeAll ?ts) zeroValidation =
      Some (Done (recordAll zeroValidation (recordedPairs ?ts)))"
    by (simp add: findFieldsInASN1_def len_def)
  then show ?thesis
    unfolding bytes occ
    by (simp add: recordAll_def setValidationField_def OIDCommonName_def)
qed

subsection \<open>A structure whose field extraction does not return\<close>

lemma parse_marker_256:
  "length c = 256 \<Longrightarrow>
   parseASN1Element (0x30 # 0x82 # 0x01 # 0x00 # c) d off =
     Done (Inr (\<lparr>Depth = d, Offset = off, HeaderLen = 4, Length = 256, Tag = 16, Class = 0,
       IsCompound = True\<rparr>, 260))"
  by (simp add: parseASN1Element_def elementContent_def len_def accumulateLength_def wrap64_def Let_def)

lemma stuck_validate: "validateSignatureFields stuckSignature = None"
proof -
  let ?c = "wrapHeader 0x31 @ replicate 246 0"
  have c: "length ?c = 256" by (simp add: wrapHeader_def)
  have s: "stuckSignature = 0x30 # 0x82 # 0x01 # 0x00 # ?c" by (simp add: stuckSignature_def)
  have lt: "0 < len stuckSignature" by (simp add: s len_def)
  have win: "sliceFrom stuckSignature 0 = Done (0x30 # 0x82 # 0x01 # 0x00 # ?c)"
    by (simp add: sliceFrom_def s len_def)
  have body: "contentOf stuckSignature 0 \<lparr>Depth = 0, Offset = 0, HeaderLen = 4, Length = 256,
      Tag = 16, Class = 0, IsCompound = True\<rparr> = Done ?c"
    using c by (simp add: contentOf_def slice_def s len_def wrap64_def)
  have desc: "descends (0x30 # 0x82 # 0x01 # 0x00 # ?c) \<lparr>Depth = 0, Offset = 0, HeaderLen = 4,
      Length = 256, Tag = 16, Class = 0, IsCompound = True\<rparr> 260"
    using c by (simp add: descends_def len_def)
  have "findFieldsLoop stuckSignature 0 zeroValidation = None"
    apply (subst findFieldsLoop.simps)
    apply (simp add: lt win parse_marker_256 [OF c] checkOID_def TagObjectID_def desc body
        findFieldsLoop_stuck)
    done
  then show ?thesis by (simp add: validateSignatureFields_def findFieldsInASN1_def)
qed

lemma stuck_search: "FindValidSignature unmarshalTLV stuckSignature = None"
proof -
  let ?c = "wrapHeader 0x31 @ replicate 246 0"
  have c: "length ?c = 256" by (simp add: wrapHeader_def)
  have s: "stuckSignature = 0x30 # 0x82 # 0x01 # 0x00 # ?c" by (simp add: stuckSignature_def)
  have n: "len stuckSignature = 260" by (simp add: s len_def wrapHeader_def)
  have u: "unmarshalTLV stuckSignature =
      Some (\<lparr>RawClass = 0, RawTag = 16, RawIsCompound = True, Bytes = ?c,
        FullBytes = stuckSignature\<rparr>, [])"
    unfolding s using c by (simp add: unmarshalTLV_def parse_marker_256 [OF c])
  have m: "marker stuckSignature 0" by (simp add: marker_def s)
  have cand: "candidate unmarshalTLV stuckSignature 0 = None"
    by (simp add: candidate_def m u stuck_validate)
  have "drop (nat 0 + 1) stuckSignature = 0x82 # 0x01 # 0x00 # ?c" by (simp add: s)
  then have "0x30 \<notin> set (drop (nat 0 + 1) stuckSignature)" by (simp add: wrapHeader_def)
  then have r: "\<forall>j. 0 < j \<and> j + 2 \<le> len stuckSignature \<longrightarrow>
      candidate unmarshalTLV stuckSignature j = Some Rejected"
    by (intro rejected_after) simp_all
  show ?thesis using cand r by (intro FindValidSignature_stuck) (simp_all add: n)
qed

section \<open>The claims\<close>

text \<open>
  C1. The claim: for every input byte slice, every core call (\<^verbatim>\<open>parseASN1Element\<close>,
  \<^verbatim>\<open>findFieldsInASN1\<close>, \<^verbatim>\<open>findLastOctetString\<close>, \<^verbatim>\<open>parseOID\<close>,
  \<^verbatim>\<open>FindValidSignature\<close>) terminates, never panics and reads only inside the slice.
  The source does not keep it. On the ten bytes \<open>04 88 7F FF FF FF FF FF FF FF\<close> the sum
  \<^verbatim>\<open>HeaderLen + Length\<close> overflows, the guard in front of the content slice passes and
  \<^verbatim>\<open>parseASN1Element\<close> panics on \<^verbatim>\<open>data[10:-9223372036854775799]\<close>. On the ten
  bytes \<open>30 88 FF FF FF FF FF FF FF F6\<close> the element decodes with length \<open>-10\<close> and
  \<open>bytesRead = 0\<close>, and neither \<^verbatim>\<open>findFieldsInASN1\<close> nor the key-size walk returns.
  With \<open>F5\<close> as the last byte \<open>bytesRead\<close> is \<open>-1\<close> and the next \<^verbatim>\<open>data[offset:]\<close>
  panics.
\<close>

theorem core_calls_panic_and_hang:
  "parseASN1Element [0x04, 0x88, 0x7F, 0xFF, 0xFF, 0xFF, 0xFF, 0xFF, 0xFF, 0xFF] 0 0 = Panic
   \<and> findFieldsInASN1 [0x30, 0x88, 0xFF, 0xFF, 0xFF, 0xFF, 0xFF, 0xFF, 0xFF, 0xF6]
        zeroValidation = None
   \<and> calculateKeySize [0x30, 0x88, 0xFF, 0xFF, 0xFF, 0xFF, 0xFF, 0xFF, 0xFF, 0xF6] = None
   \<and> findFieldsInASN1 [0x30, 0x88, 0xFF, 0xFF, 0xFF, 0xFF, 0xFF, 0xFF, 0xFF, 0xF5]
        zeroValidation = Some Panic"
proof (intro conjI)
  show "parseASN1Element [0x04, 0x88, 0x7F, 0xFF, 0xFF, 0xFF, 0xFF, 0xFF, 0xFF, 0xFF] 0 0 = Panic"
    by (simp add: parseASN1Element_def elementContent_def len_def accumulateLength_def wrap64_def slice_def Let_def)
  show "findFieldsInASN1 [0x30, 0x88, 0xFF, 0xFF, 0xFF, 0xFF, 0xFF, 0xFF, 0xFF, 0xF6]
      zeroValidation = None"
    using findFieldsLoop_stuck [of "0x30" "[]" zeroValidation]
    by (simp add: findFieldsInASN1_def wrapHeader_def)
  show "calculateKeySize [0x30, 0x88, 0xFF, 0xFF, 0xFF, 0xFF, 0xFF, 0xFF, 0xFF, 0xF6] = None"
    using findLastLoop_stuck [of "0x30" "[]" zeroElement 0 0]
    by (simp add: calculateKeySize_def findLastOctetString_def wrapHeader_def)
  show "findFieldsInASN1 [0x30, 0x88, 0xFF, 0xFF, 0xFF, 0xFF, 0xFF, 0xFF, 0xFF, 0xF5]
      zeroValidation = Some Panic"
    by code_simp
qed

text \<open>
  C2. The claim: the walk enforces the ceiling \<^verbatim>\<open>MaxRecursionDepth\<close> = 50, so that a
  constructed element at a depth at or beyond the limit fails for its sub-tree. The test
  \<^verbatim>\<open>TestParseASN1Element\<close> expects an error from \<^verbatim>\<open>parseASN1Element\<close> at depth
  \<^verbatim>\<open>MaxRecursionDepth + 1\<close>. The source has no limit: the decoder succeeds at depth 51
  on the input of the test, and the key-size walk goes through 52 nested SEQUENCEs to the
  OCTET STRING inside them and reports its size.
\<close>

theorem no_recursion_limit:
  "parseASN1Element [0x30, 0x02, 0x01, 0x01] (MaxRecursionDepth + 1) 0 =
     Done (Inr (\<lparr>Depth = 51, Offset = 0, HeaderLen = 2, Length = 2, Tag = 16, Class = 0,
       IsCompound = True\<rparr>, 4))
   \<and> calculateKeySize (encode (nested 52 (Primitive 0x04 0 [0xAA]))) = Some (Done 8)"
proof
  show "parseASN1Element [0x30, 0x02, 0x01, 0x01] (MaxRecursionDepth + 1) 0 =
     Done (Inr (\<lparr>Depth = 51, Offset = 0, HeaderLen = 2, Length = 2, Tag = 16, Class = 0,
       IsCompound = True\<rparr>, 4))"
    by (simp add: parseASN1Element_def elementContent_def MaxRecursionDepth_def len_def wrap64_def Let_def)
  show "calculateKeySize (encode (nested 52 (Primitive 0x04 0 [0xAA]))) = Some (Done 8)"
    by (rule nested_key_size)
qed

text \<open>
  C3. The claim: for every buffer the search accepts the rightmost candidate with the
  marker, a successful decode and all five attributes, and fails with the
  no-valid-signature error when there is none. Where the field extraction returns for
  the candidates reached, the source does so (\<open>FindValidSignature_accepts\<close>,
  \<open>FindValidSignature_exhausted\<close>). On the 260-byte buffer below no candidate is accepted
  and the call does not fail with the error: the decode at offset 0 succeeds, the field
  extraction meets the header whose length wraps to \<open>-10\<close> and never returns, and neither
  does the search.
\<close>

theorem search_never_returns:
  "FindValidSignature unmarshalTLV
     ([0x30, 0x82, 0x01, 0x00, 0x31, 0x88, 0xFF, 0xFF, 0xFF, 0xFF, 0xFF, 0xFF, 0xFF, 0xF6]
        @ replicate 246 0) = None"
  using stuck_search by (simp add: stuckSignature_def wrapHeader_def)

text \<open>
  C4. The claim: \<^verbatim>\<open>calculateKeySize\<close> returns eight times the content length of the
  last element visited in document order when that element is an OCTET STRING, and 0 in
  every other case. In \<open>30 08 30 03 04 01 AA 02 01 01\<close>, a SEQUENCE of a SEQUENCE with
  an OCTET STRING and of an INTEGER, the last element visited is the INTEGER and the
  result is 8, not 0: each call of \<^verbatim>\<open>findLastOctetString\<close> looks at the last element
  of its own region, and the inner region ends in the OCTET STRING.
\<close>

theorem key_size_counterexample:
  "calculateKeySize [0x30, 0x08, 0x30, 0x03, 0x04, 0x01, 0xAA, 0x02, 0x01, 0x01] = Some (Done 8)
   \<and> encodeAll keyExample = [0x30, 0x08, 0x30, 0x03, 0x04, 0x01, 0xAA, 0x02, 0x01, 0x01]
   \<and> claimedKeySize keyExample = 0"
proof (intro conjI)
  show "calculateKeySize [0x30, 0x08, 0x30, 0x03, 0x04, 0x01, 0xAA, 0x02, 0x01, 0x01] =
      Some (Done 8)"
    by code_simp
  show "encodeAll keyExample = [0x30, 0x08, 0x30, 0x03, 0x04, 0x01, 0xAA, 0x02, 0x01, 0x01]"
    by (simp add: keyExample_def encodeLength_simps fits_simps)
  show "claimedKeySize keyExample = 0"
    by (simp add: keyExample_def claimedKeySize_def isOctetString_def)
qed

text \<open>
  C4 as amended. The statement is about the byte ranges that encode a sequence of
  well-formed elements (definite lengths, in the short form or in at most seven length
  octets) within the limits of the specification (at most \<^verbatim>\<open>MaxRecursionDepth\<close>
  levels, at most \<^verbatim>\<open>MaxElementsPerLevel\<close> elements in a region, no long-form tag) and
  in which tag number 4 is borne by OCTET STRINGs only. On these
  \<^verbatim>\<open>calculateKeySize\<close> returns, and its result is the key size by regions. The
  regions are the top-level range and the non-empty content of every constructed
  element; the walk finishes the regions inside an element before the region that holds
  it, and the top-level range last. Among the regions that end in an OCTET STRING the
  one finished last decides, with eight times the content length of that OCTET STRING;
  the result is 0 when no region ends in an OCTET STRING. When the last element visited
  is an OCTET STRING the result is what the claim says, eight times its content length;
  when it is not, the result is that of the regions and need not be 0. The bound on the
  length of the range is that of every Go slice.
\<close>

theorem key_size_of_last_finished_region:
  assumes "\<forall>t\<in>set ts. wellFormed t" and "withinLimits ts" and "onlyUniversal 0x04 ts"
    and "length (encodeAll ts) < 2 ^ 63"
  shows "calculateKeySize (encodeAll ts) = Some (Done (regionKeySize ts))
    \<and> (ts \<noteq> [] \<and> isOctetString (last (visited ts)) \<longrightarrow>
         regionKeySize ts = claimedKeySize ts)"
proof
  show "calculateKeySize (encodeAll ts) = Some (Done (regionKeySize ts))"
    using calculateKeySize_encoded [OF assms(1,4)] keyOfRegions_regionKeySize [OF assms(3)]
    by simp
  show "ts \<noteq> [] \<and> isOctetString (last (visited ts)) \<longrightarrow>
      regionKeySize ts = claimedKeySize ts"
    using last_visited_regionKeySize [OF assms(1,3)] by simp
qed

theorem key_size_of_last_finished_region_witness:
  "list_all wellFormed keyLast \<and> withinLimits keyLast \<and> onlyUniversal 0x04 keyLast
   \<and> length (encodeAll keyLast) < 2 ^ 63
   \<and> keyLast \<noteq> [] \<and> isOctetString (last (visited keyLast))
   \<and> encodeAll keyLast = [0x30, 0x09, 0x02, 0x01, 0x01, 0x30, 0x04, 0x04, 0x02, 0xAA, 0xBB]
   \<and> claimedKeySize keyLast = 16
   \<and> calculateKeySize (encodeAll keyLast) = Some (Done 16)
   \<and> list_all wellFormed keyExample \<and> withinLimits keyExample
   \<and> onlyUniversal 0x04 keyExample \<and> length (encodeAll keyExample) < 2 ^ 63
   \<and> regions keyExample =
       [[Primitive 0x04 0 [0xAA]],
        [Constructed 0x30 0 [Primitive 0x04 0 [0xAA]], Primitive 0x02 0 [0x01]],
        keyExample]
   \<and> calculateKeySize (encodeAll keyExample) = Some (Done 8)"
proof -
  have a1: "\<forall>t\<in>set keyLast. wellFormed t"
    by (simp add: keyLast_def encodeLength_simps fits_simps)
  have a2: "withinLimits keyLast"
    by (simp add: withinLimits_def keyLast_def regions_def tagNumber_def len_def
        MaxRecursionDepth_def MaxElementsPerLevel_def)
  have a3: "onlyUniversal 0x04 keyLast"
    by (simp add: onlyUniversal_def keyLast_def tagNumber_def)
  have a4: "length (encodeAll keyLast) < 2 ^ 63"
    by (simp add: keyLast_def encodeLength_simps fits_simps)
  have a5: "keyLast \<noteq> [] \<and> isOctetString (last (visited keyLast))"
    by (simp add: keyLast_def isOctetString_def)
  have a6: "encodeAll keyLast =
      [0x30, 0x09, 0x02, 0x01, 0x01, 0x30, 0x04, 0x04, 0x02, 0xAA, 0xBB]"
    by (simp add: keyLast_def encodeLength_simps fits_simps)
  have a7: "claimedKeySize keyLast = 16"
    by (simp add: claimedKeySize_def keyLast_def isOctetString_def len_def)
  have b1: "\<forall>t\<in>set keyExample. wellFormed t"
    by (simp add: keyExample_def encodeLength_simps fits_simps)
  have b2: "withinLimits keyExample"
    by (simp add: withinLimits_def keyExample_def regions_def tagNumber_def len_def
        MaxRecursionDepth_def MaxElementsPerLevel_def)
  have b3: "onlyUniversal 0x04 keyExample"
    by (simp add: onlyUniversal_def keyExample_def tagNumber_def)
  have b4: "length (encodeAll keyExample) < 2 ^ 63"
    by (simp add: keyExample_def encodeLength_simps fits_simps)
  have b5: "regions keyExample =
       [[Primitive 0x04 0 [0xAA]],
        [Constructed 0x30 0 [Primitive 0x04 0 [0xAA]], Primitive 0x02 0 [0x01]],
        keyExample]"
    by (simp add: keyExample_def regions_def)
  have b6: "regionKeySize keyExample = 8"
    by (simp add: regionKeySize_def b5 endsInOctetString_def isOctetString_def)
      (simp add: keyExample_def len_def)
  from key_size_of_last_finished_region [OF a1 a2 a3 a4] a5 a7
  have "calculateKeySize (encodeAll keyLast) = Some (Done 16)" by simp
  moreover from key_size_of_last_finished_region [OF b1 b2 b3 b4] b6
  have "calculateKeySize (encodeAll keyExample) = Some (Done 8)" by simp
  ultimately show ?thesis using a1 a2 a3 a4 a5 a6 a7 b1 b2 b3 b4 b5
    by (simp add: list_all_iff)
qed

text \<open>
  C5. The claim: a window whose first byte has its low five bits equal to 31, the marker
  of a long-form tag, is rejected with an unsupported-long-form-tag failure, and only tag
  numbers 0 to 30 are accepted. \<^verbatim>\<open>ASN1_TAG_REFERENCE.md\<close> too reads the value 31 as
  the long form indicator, with the tag number in the bytes that follow. The source has
  no such case: it takes 31 for the tag number and the next byte for the length. The two
  bytes \<open>1F 00\<close> decode, without error, to an element with tag number 31. In
  \<open>1F 81 00 01 AA\<close>, the long-form tag 128 with one content byte, the octet \<open>81\<close> of
  the tag is read as a long-form length byte and \<open>00\<close> as the length: the decoder
  returns an element with tag number 31, header length 3 and length 0, and consumes three
  of the five bytes.
\<close>

theorem long_form_tag_accepted:
  "parseASN1Element [0x1F, 0x00] 0 0 =
     Done (Inr (\<lparr>Depth = 0, Offset = 0, HeaderLen = 2, Length = 0, Tag = 31, Class = 0,
       IsCompound = False\<rparr>, 2))
   \<and> parseASN1Element [0x1F, 0x81, 0x00, 0x01, 0xAA] 0 0 =
     Done (Inr (\<lparr>Depth = 0, Offset = 0, HeaderLen = 3, Length = 0, Tag = 31, Class = 0,
       IsCompound = False\<rparr>, 3))"
  by (simp add: parseASN1Element_def elementContent_def accumulateLength_def len_def wrap64_def
      Let_def)

text \<open>
  C6. The claim: a long-form length is the big-endian value of its octets, decoding fails
  when that value overflows the integer type or exceeds the window, and so every decoded
  element has a non-negative length with header plus content inside the window. The
  source accumulates into a signed 64-bit \<^verbatim>\<open>int\<close> without an overflow check. Eight
  octets \<open>FF FF FF FF FF FF FF F6\<close> decode, without error, to the length \<open>-10\<close>; nine
  octets \<open>01 00 00 00 00 00 00 00 00\<close> (the value \<open>2 ^ 64\<close>) decode to the length 0.
\<close>

theorem length_overflow_accepted:
  "parseASN1Element [0x30, 0x88, 0xFF, 0xFF, 0xFF, 0xFF, 0xFF, 0xFF, 0xFF, 0xF6] 0 0 =
     Done (Inr (\<lparr>Depth = 0, Offset = 0, HeaderLen = 10, Length = - 10, Tag = 16, Class = 0,
       IsCompound = True\<rparr>, 0))
   \<and> parseASN1Element [0x30, 0x89, 0x01, 0x00, 0x00, 0x00, 0x00, 0x00, 0x00, 0x00, 0x00] 0 0 =
     Done (Inr (\<lparr>Depth = 0, Offset = 0, HeaderLen = 11, Length = 0, Tag = 16, Class = 0,
       IsCompound = True\<rparr>, 11))"
  by (simp add: parseASN1Element_def elementContent_def len_def accumulateLength_def wrap64_def slice_def Let_def)




text \<open>
  C8. The claim: within one region the walk decodes at most \<^verbatim>\<open>MaxElementsPerLevel\<close> =
  10000 elements and aborts the region beyond that. The source counts nothing: in a region
  of 10001 NULL elements followed by the common-name identifier and a value, the walk
  reaches the identifier, element 10002 of the region, and records the value.
\<close>

theorem no_element_limit:
  "findFieldsInASN1 (concat (replicate (nat MaxElementsPerLevel + 1) [0x05, 0x00]) @
      [0x06, 0x03, 0x55, 0x04, 0x03, 0x0C, 0x01, 0x41]) zeroValidation =
     Some (Done (zeroValidation\<lparr>HasCommonName := True, CommonName := ''A''\<rparr>))"
  by (rule many_siblings) (simp add: MaxElementsPerLevel_def)

text \<open>
  C9. The claim: when a recognized attribute identifier occurs more than once, each
  occurrence followed by a primitive non-empty sibling, the value recorded is the one
  that follows the last occurrence in depth-first document order. On structures in which
  tag number 6 is borne by OBJECT IDENTIFIERs only, the source does so
  (\<open>last_occurrence_recorded\<close>). But the walk tests the tag number and not the class: in
  the 24 bytes below the common name occurs in two OBJECT IDENTIFIERs, followed by A and
  by B, and the walk records C, the value that follows an element of the
  context-specific class with tag number 6. And when the two occurrences are followed by
  the header \<open>04 88 7F FF FF FF FF FF FF FF\<close>, whose length overflows, the walk panics
  and no value is recorded.
\<close>

theorem context_tag_recorded_as_identifier:
  "encodeAll threeNames =
     [0x06, 0x03, 0x55, 0x04, 0x03, 0x0C, 0x01, 0x41,
      0x06, 0x03, 0x55, 0x04, 0x03, 0x0C, 0x01, 0x42,
      0x86, 0x03, 0x55, 0x04, 0x03, 0x0C, 0x01, 0x43]
   \<and> occurrences threeNames = [(''2.5.4.3'', ''A''), (''2.5.4.3'', ''B'')]
   \<and> findFieldsInASN1
       [0x06, 0x03, 0x55, 0x04, 0x03, 0x0C, 0x01, 0x41,
        0x06, 0x03, 0x55, 0x04, 0x03, 0x0C, 0x01, 0x42,
        0x86, 0x03, 0x55, 0x04, 0x03, 0x0C, 0x01, 0x43] zeroValidation =
     Some (Done (zeroValidation\<lparr>HasCommonName := True, CommonName := ''C''\<rparr>))
   \<and> findFieldsInASN1
       [0x06, 0x03, 0x55, 0x04, 0x03, 0x0C, 0x01, 0x41,
        0x06, 0x03, 0x55, 0x04, 0x03, 0x0C, 0x01, 0x42,
        0x04, 0x88, 0x7F, 0xFF, 0xFF, 0xFF, 0xFF, 0xFF, 0xFF, 0xFF] zeroValidation =
     Some Panic"
proof (intro conjI)
  show bytes: "encodeAll threeNames =
     [0x06, 0x03, 0x55, 0x04, 0x03, 0x0C, 0x01, 0x41,
      0x06, 0x03, 0x55, 0x04, 0x03, 0x0C, 0x01, 0x42,
      0x86, 0x03, 0x55, 0x04, 0x03, 0x0C, 0x01, 0x43]"
    by (simp add: threeNames_def encodeLength_simps fits_simps)
  show "occurrences threeNames = [(''2.5.4.3'', ''A''), (''2.5.4.3'', ''B'')]"
    by (simp add: threeNames_def parseOID_def Let_def digit_def string_of_bytes_def
        char_of_def bit_iff_odd)
  have wf: "\<forall>t\<in>set threeNames. wellFormed t"
    by (simp add: threeNames_def fits_simps)
  have "len ([] @ encodeAll threeNames) < 2 ^ 63"
    by (simp add: bytes len_def)
  from findFieldsLoop_encoded [OF wf this, of zeroValidation]
  have "findFieldsInASN1 (encodeAll threeNames) zeroValidation =
      Some (Done (recordAll zeroValidation (recordedPairs threeNames)))"
    by (simp add: findFieldsInASN1_def len_def)
  moreover have "recordedPairs threeNames =
      [(''2.5.4.3'', ''A''), (''2.5.4.3'', ''B''), (''2.5.4.3'', ''C'')]"
    by (simp add: threeNames_def tagNumber_def parseOID_def Let_def digit_def
        string_of_bytes_def char_of_def bit_iff_odd)
  ultimately show "findFieldsInASN1
       [0x06, 0x03, 0x55, 0x04, 0x03, 0x0C, 0x01, 0x41,
        0x06, 0x03, 0x55, 0x04, 0x03, 0x0C, 0x01, 0x42,
        0x86, 0x03, 0x55, 0x04, 0x03, 0x0C, 0x01, 0x43] zeroValidation =
     Some (Done (zeroValidation\<lparr>HasCommonName := True, CommonName := ''C''\<rparr>))"
    by (simp add: bytes recordAll_def setValidationField_def OIDCommonName_def)
  show "findFieldsInASN1
       [0x06, 0x03, 0x55, 0x04, 0x03, 0x0C, 0x01, 0x41,
        0x06, 0x03, 0x55, 0x04, 0x03, 0x0C, 0x01, 0x42,
        0x04, 0x88, 0x7F, 0xFF, 0xFF, 0xFF, 0xFF, 0xFF, 0xFF, 0xFF] zeroValidation =
     Some Panic"
    by code_simp
qed

text \<open>
  C10. The claim: a structure accepted at offset \<open>i\<close> is still accepted at offset \<open>i\<close>
  after arbitrary trailing bytes are appended. The search returns the rightmost accepted
  candidate, and appended bytes can hold one: the 260-byte structure alone is accepted at
  offset 0, followed by a copy of itself the search returns offset 260.
\<close>

theorem later_signature_wins_counterexample:
  "FindValidSignature unmarshalTLV signatureBytes = Some (Done (Inr (rawOf signatureTree, 0)))
   \<and> FindValidSignature unmarshalTLV (signatureBytes @ signatureBytes) =
       Some (Done (Inr (rawOf signatureTree, 260)))"
proof
  have c: "candidate unmarshalTLV signatureBytes 0 = Some (Accepted (rawOf signatureTree))"
    using signature_candidate [of "[]" "[]"] by (simp add: len_def)
  have "drop (nat 0 + 1) signatureBytes = tl signatureBytes" by (simp add: drop_Suc)
  then have r: "\<forall>j. 0 < j \<and> j + 2 \<le> len signatureBytes \<longrightarrow>
      candidate unmarshalTLV signatureBytes j = Some Rejected"
    using signature_tail by (intro rejected_after) simp_all
  show "FindValidSignature unmarshalTLV signatureBytes =
      Some (Done (Inr (rawOf signatureTree, 0)))"
    using c r by (intro FindValidSignature_accepts) (simp_all add: len_def signature_length)
next
  let ?d = "signatureBytes @ signatureBytes"
  have c: "candidate unmarshalTLV ?d 260 = Some (Accepted (rawOf signatureTree))"
    using signature_candidate [of signatureBytes "[]"] by (simp add: len_def signature_length)
  have "drop (nat 260 + 1) ?d = tl signatureBytes"
    by (simp add: signature_length drop_Suc)
  then have r: "\<forall>j. 260 < j \<and> j + 2 \<le> len ?d \<longrightarrow> candidate unmarshalTLV ?d j = Some Rejected"
    using signature_tail by (intro rejected_after) simp_all
  show "FindValidSignature unmarshalTLV ?d = Some (Done (Inr (rawOf signatureTree, 260)))"
    using c r by (intro FindValidSignature_accepts) (simp_all add: len_def signature_length)
qed

text \<open>
  C10 as amended: the search does not require the accepted structure to reach the end of
  the buffer, and the bytes that remain after the unmarshal (\<open>rest\<close>, whatever it is) are
  dropped unchecked. For a buffer with the marker at offset \<open>i\<close> and any trailing bytes
  appended, if the decoder at \<open>i\<close> yields a structure with all five attributes, the search
  returns offset \<open>i\<close> provided every candidate at a greater offset of the extended buffer
  is rejected; an accepted candidate further right, which the appended bytes can hold or
  complete, comes first.
\<close>

theorem trailing_bytes_unchecked:
  assumes "0 \<le> i" and "i + 2 \<le> len data" and "marker data i"
    and "unmarshal (drop (nat i) (data @ trailing)) = Some (raw, rest)"
    and "validateSignatureFields (FullBytes raw) = Some (Done validation)"
    and "IsValid validation"
    and "\<forall>j. i < j \<and> j + 2 \<le> len (data @ trailing) \<longrightarrow>
           candidate unmarshal (data @ trailing) j = Some Rejected"
  shows "FindValidSignature unmarshal (data @ trailing) = Some (Done (Inr (raw, i)))"
proof -
  have "nat i < length data" "nat (i + 1) < length data"
    using assms(1,2) by (simp_all add: len_def)
  then have "marker (data @ trailing) i"
    using assms(3) by (simp add: marker_def nth_append)
  then have "candidate unmarshal (data @ trailing) i = Some (Accepted raw)"
    using assms(4,5,6) by (simp add: candidate_def)
  moreover have "i + 2 \<le> len (data @ trailing)" using assms(2) by (simp add: len_def)
  ultimately show ?thesis using assms(1,7) by (intro FindValidSignature_accepts)
qed

theorem trailing_bytes_unchecked_witness:
  "(0::int) \<le> 1 \<and> 1 + 2 \<le> len (0x00 # signatureBytes) \<and> marker (0x00 # signatureBytes) 1
   \<and> unmarshalTLV (drop (nat 1) ((0x00 # signatureBytes) @ [0xDE, 0xAD])) =
        Some (rawOf signatureTree, [0xDE, 0xAD])
   \<and> validateSignatureFields (FullBytes (rawOf signatureTree)) = Some (Done signatureFields)
   \<and> IsValid signatureFields
   \<and> list_all (\<lambda>j. candidate unmarshalTLV ((0x00 # signatureBytes) @ [0xDE, 0xAD]) j =
          Some Rejected) [2 .. len ((0x00 # signatureBytes) @ [0xDE, 0xAD]) - 2]
   \<and> FindValidSignature unmarshalTLV ((0x00 # signatureBytes) @ [0xDE, 0xAD]) =
        Some (Done (Inr (rawOf signatureTree, 1)))"
proof -
  let ?data = "0x00 # signatureBytes" and ?t = "[0xDE, 0xAD] :: byte list"
  have h1: "(0::int) \<le> 1" by simp
  have h2: "1 + 2 \<le> len ?data" by (simp add: len_def signature_length)
  have h3: "marker ?data 1" by (simp add: marker_def signatureBytes_def)
  have h4: "unmarshalTLV (drop (nat 1) (?data @ ?t)) = Some (rawOf signatureTree, ?t)"
    using signature_raw [of ?t] by simp
  have h5: "validateSignatureFields (FullBytes (rawOf signatureTree)) = Some (Done signatureFields)"
    using validate_signature by (simp add: rawOf_def signatureBytes_encode)
  have h6: "IsValid signatureFields" by (simp add: IsValid_def signatureFields_def)
  have "drop (nat 1 + 1) (?data @ ?t) = tl signatureBytes @ ?t"
    by (simp add: drop_Suc signatureBytes_def)
  then have h7: "\<forall>j. 1 < j \<and> j + 2 \<le> len (?data @ ?t) \<longrightarrow>
      candidate unmarshalTLV (?data @ ?t) j = Some Rejected"
    using signature_tail by (intro rejected_after) simp_all
  have h7': "list_all (\<lambda>j. candidate unmarshalTLV (?data @ ?t) j = Some Rejected)
      [2 .. len (?data @ ?t) - 2]"
    using h7 by (simp add: list_all_iff)
  show ?thesis
    using h1 h2 h3 h4 h5 h6 h7' trailing_bytes_unchecked [OF h1 h2 h3 h4 h5 h6 h7] by blast
qed

end
